theory Spec2Isabelle
  imports Complex_Main "HOL-Library.Multiset"
begin

section \<open>Bounded Range (scene.js, lines 25-70)\<close>

text \<open>
  The values passed to a Range are JavaScript numbers. \<open>update\<close> only compares them, so
  what matters of a number is its place in the order: a number is \<open>NaN\<close>, an infinity or
  a finite value (a real; the two zeros compare equal and are one value here). The
  comparison \<open>a < b\<close> of JavaScript is false as soon as one side is \<open>NaN\<close>, and \<open>a > b\<close>
  is \<open>b < a\<close>.
\<close>

datatype jsnum = NaN | NegInf | Num real | PosInf

fun js_less :: "jsnum \<Rightarrow> jsnum \<Rightarrow> bool" where
  "js_less NaN b = False"
| "js_less a NaN = False"
| "js_less NegInf NegInf = False"
| "js_less NegInf b = True"
| "js_less (Num x) (Num y) = (x < y)"
| "js_less (Num x) PosInf = True"
| "js_less (Num x) NegInf = False"
| "js_less PosInf b = False"

text \<open>
  A \<open>Range\<close> object has the fields \<open>_empty\<close>, \<open>_min\<close> and \<open>_max\<close>. The bounds are numbers or
  \<open>null\<close> (\<open>None\<close>).
\<close>

record Range =
  r_empty :: bool
  r_min :: "jsnum option"
  r_max :: "jsnum option"

text \<open>The constructor: an argument that is \<open>undefined\<close> is \<open>None\<close>.\<close>

definition Range_new :: "jsnum option \<Rightarrow> jsnum option \<Rightarrow> Range" where
  "Range_new mn mx =
     (if mn = None \<or> mx = None
      then \<lparr>r_empty = True, r_min = None, r_max = None\<rparr>
      else \<lparr>r_empty = False, r_min = mn, r_max = mx\<rparr>)"

text \<open>A relational comparison of JavaScript converts \<open>null\<close> to the number 0.\<close>

fun toNumber :: "jsnum option \<Rightarrow> jsnum" where
  "toNumber None = Num 0"
| "toNumber (Some x) = x"

definition update :: "Range \<Rightarrow> jsnum \<Rightarrow> Range" where
  "update r val =
     (if \<not> r_empty r then
        (if js_less val (toNumber (r_min r)) then r\<lparr>r_min := Some val\<rparr>
         else if js_less (toNumber (r_max r)) val then r\<lparr>r_max := Some val\<rparr>
         else r)
      else r\<lparr>r_min := Some val, r_max := Some val, r_empty := False\<rparr>)"

text \<open>A sequence of \<open>update\<close> calls on one Range object, first call first.\<close>

definition updates :: "Range \<Rightarrow> jsnum list \<Rightarrow> Range" where
  "updates r vs = foldl update r vs"

text \<open>
  The minimum and the maximum of a sequence of numbers, in the words of the claim: a
  value of the sequence that every value of the sequence equals or exceeds, and one that
  every value equals or stays below.
\<close>

definition isMinimum :: "jsnum list \<Rightarrow> jsnum \<Rightarrow> bool" where
  "isMinimum vs m \<longleftrightarrow> m \<in> set vs \<and> (\<forall>v\<in>set vs. m = v \<or> js_less m v)"

definition isMaximum :: "jsnum list \<Rightarrow> jsnum \<Rightarrow> bool" where
  "isMaximum vs m \<longleftrightarrow> m \<in> set vs \<and> (\<forall>v\<in>set vs. m = v \<or> js_less v m)"

section \<open>Id pool (scene.js, lines 792-859)\<close>

text \<open>
  A \<open>ContinuousIdRange\<close> object has the fields \<open>_start\<close>, \<open>_next\<close> and \<open>_end\<close> (and a
  reference to its pool). Identifiers are JavaScript numbers holding integers: \<open>int\<close>.
\<close>

record ContinuousIdRange =
  id_start :: int
  id_next :: int
  id_end :: int

definition rlength :: "ContinuousIdRange \<Rightarrow> int" where
  "rlength r = id_end r - id_start r"

text \<open>
  Range objects are shared by reference: a geometry keeps the range it acquired, and
  \<open>recycle\<close> pushes the very same object onto the free list. The model therefore has a
  store of the range objects of a pool, \<open>ranges\<close>, in the order of their creation; a
  reference is an index into it, so a reference \<open>r\<close> of the program always has
  \<open>r < length (ranges P)\<close>. The pool itself has the fields \<open>_objects\<close> (a table from
  identifiers to objects), \<open>_unusedRangeStart\<close> and \<open>_free\<close> (a list of references).
\<close>

record 'o UniqueObjectIdPool =
  objects :: "int \<rightharpoonup> 'o"
  unusedRangeStart :: int
  free :: "nat list"
  ranges :: "ContinuousIdRange list"

definition UniqueObjectIdPool_new :: "'o UniqueObjectIdPool" where
  "UniqueObjectIdPool_new =
     \<lparr>objects = Map.empty, unusedRangeStart = 0, free = [], ranges = []\<rparr>"

text \<open>
  \<open>nextId\<close>, called on the range object at reference \<open>r\<close>: it returns the cursor, advances
  it and stores the object in the pool's table. There is no comparison with \<open>_end\<close>.
\<close>

definition nextId :: "'o UniqueObjectIdPool \<Rightarrow> nat \<Rightarrow> 'o \<Rightarrow> int \<times> 'o UniqueObjectIdPool" where
  "nextId P r obj =
     (let ident = id_next (ranges P ! r) in
      (ident,
       P\<lparr>ranges := (ranges P)[r := (ranges P ! r)\<lparr>id_next := ident + 1\<rparr>],
         objects := (objects P)(ident \<mapsto> obj)\<rparr>))"

text \<open>
  The search loop of \<open>getContinuousRange\<close> over the free list: \<open>i\<close> is the loop index and
  the pair is \<open>(bestIndex, bestLength)\<close>, which starts as \<open>(-1, null)\<close>.
\<close>

fun scanFree ::
  "ContinuousIdRange list \<Rightarrow> nat list \<Rightarrow> int \<Rightarrow> nat \<Rightarrow> int \<times> int option \<Rightarrow> int \<times> int option"
where
  "scanFree rs [] num i best = best"
| "scanFree rs (f # fs) num i (bestIndex, bestLength) =
     (let len = rlength (rs ! f) in
      scanFree rs fs num (Suc i)
        (if len \<ge> num \<and> (bestLength = None \<or> len < the bestLength)
         then (int i, Some len)
         else (bestIndex, bestLength)))"

text \<open>\<open>splice(k, 1)\<close> removes the element at index \<open>k\<close>.\<close>

definition splice1 :: "'a list \<Rightarrow> nat \<Rightarrow> 'a list" where
  "splice1 xs k = take k xs @ drop (Suc k) xs"

text \<open>
  \<open>getContinuousRange\<close> returns the reference of a range or \<open>null\<close> (\<open>None\<close>), what it wrote
  with \<open>console.log\<close>, and the pool after the call.
\<close>

definition getContinuousRange ::
  "'o UniqueObjectIdPool \<Rightarrow> int \<Rightarrow> nat option \<times> string list \<times> 'o UniqueObjectIdPool"
where
  "getContinuousRange P num =
     (let (bestIndex, bestLength) = scanFree (ranges P) (free P) num 0 (- 1, None) in
      if bestIndex \<noteq> - 1 then
        (let result = free P ! nat bestIndex in
         (Some result, [], P\<lparr>free := splice1 (free P) (nat bestIndex)\<rparr>))
      else
        (let start = unusedRangeStart P; end = start + num in
         if end > 65536 then (None, [''not enough free object ids.''], P)
         else
           (Some (length (ranges P)), [],
            P\<lparr>unusedRangeStart := end,
              ranges := ranges P @ [\<lparr>id_start = start, id_next = start, id_end = end\<rparr>]\<rparr>)))"

text \<open>The loop of \<open>recycle\<close>: \<open>delete this._objects[i]\<close> for \<open>i\<close> from \<open>_start\<close> below \<open>_next\<close>.\<close>

function recycleLoop :: "(int \<rightharpoonup> 'o) \<Rightarrow> int \<Rightarrow> int \<Rightarrow> (int \<rightharpoonup> 'o)" where
  "recycleLoop objs i n = (if i < n then recycleLoop (objs(i := None)) (i + 1) n else objs)"
  by pat_completeness auto
termination
  by (relation "measure (\<lambda>(objs, i, n). nat (n - i))") auto

declare recycleLoop.simps [simp del]

definition recycle :: "'o UniqueObjectIdPool \<Rightarrow> nat \<Rightarrow> 'o UniqueObjectIdPool" where
  "recycle P r =
     (let range = ranges P ! r in
      P\<lparr>objects := recycleLoop (objects P) (id_start range) (id_next range),
        ranges := (ranges P)[r := range\<lparr>id_next := id_start range\<rparr>],
        free := free P @ [r]\<rparr>)"

definition objectForId :: "'o UniqueObjectIdPool \<Rightarrow> int \<Rightarrow> 'o option" where
  "objectForId P ident = objects P ident"

text \<open>
  A number of \<open>nextId\<close> calls in a row on the range at reference \<open>r\<close>, one per object of
  the list: the identifiers returned, in the order of the calls, and the pool afterwards.
\<close>

fun nextIds :: "'o UniqueObjectIdPool \<Rightarrow> nat \<Rightarrow> 'o list \<Rightarrow> int list \<times> 'o UniqueObjectIdPool" where
  "nextIds P r [] = ([], P)"
| "nextIds P r (obj # objs) =
     (let (ident, P1) = nextId P r obj; (idents, P2) = nextIds P1 r objs
      in (ident # idents, P2))"

text \<open>
  The lengths of the ranges on the free list, in the order of the list.
\<close>

definition freeLengths :: "'o UniqueObjectIdPool \<Rightarrow> int list" where
  "freeLengths P = map (\<lambda>f. rlength (ranges P ! f)) (free P)"

text \<open>
  Best fit, first match on ties, in the words of the specification: index \<open>k\<close> holds
  a length of at least \<open>n\<close>, no sufficient length is smaller, and every sufficient length
  at an earlier index is strictly greater.
\<close>

definition isBestFit :: "int list \<Rightarrow> int \<Rightarrow> nat \<Rightarrow> bool" where
  "isBestFit lens n k \<longleftrightarrow>
     k < length lens \<and> n \<le> lens ! k \<and>
     (\<forall>j < length lens. n \<le> lens ! j \<longrightarrow> lens ! k \<le> lens ! j) \<and>
     (\<forall>j < k. n \<le> lens ! j \<longrightarrow> lens ! k < lens ! j)"

text \<open>The invariant of the search loop after it has visited the lengths \<open>lens\<close>.\<close>

definition scanInv :: "int list \<Rightarrow> int \<Rightarrow> int \<times> int option \<Rightarrow> bool" where
  "scanInv lens n best \<longleftrightarrow>
     (fst best = - 1 \<and> snd best = None \<and> (\<forall>j < length lens. \<not> n \<le> lens ! j)) \<or>
     (\<exists>k. fst best = int k \<and> snd best = Some (lens ! k) \<and> isBestFit lens n k)"

text \<open>
  The state of the free list after correct use of the pool: every entry refers to a range
  object of the pool whose cursor is at its start, as \<open>recycle\<close> leaves it.
\<close>

definition freeListOk :: "'o UniqueObjectIdPool \<Rightarrow> bool" where
  "freeListOk P \<longleftrightarrow>
     (\<forall>f\<in>set (free P). f < length (ranges P) \<and>
        id_next (ranges P ! f) = id_start (ranges P ! f))"

subsection \<open>Example pools\<close>

text \<open>Three released ranges of lengths 5, 10 and 3 on the free list, in this order.\<close>

definition pool_5_10_3 :: "string UniqueObjectIdPool" where
  "pool_5_10_3 =
     \<lparr>objects = Map.empty, unusedRangeStart = 18, free = [0, 1, 2],
      ranges = [\<lparr>id_start = 0, id_next = 0, id_end = 5\<rparr>,
                \<lparr>id_start = 5, id_next = 5, id_end = 15\<rparr>,
                \<lparr>id_start = 15, id_next = 15, id_end = 18\<rparr>]\<rparr>"

text \<open>
  A pool with 6 identifiers left in its unused tail, a released range of length 3 on the
  free list and a live range that holds the rest.
\<close>

definition pool_near_full :: "string UniqueObjectIdPool" where
  "pool_near_full =
     \<lparr>objects = Map.empty, unusedRangeStart = 65530, free = [0],
      ranges = [\<lparr>id_start = 0, id_next = 0, id_end = 3\<rparr>,
                \<lparr>id_start = 3, id_next = 3, id_end = 65530\<rparr>]\<rparr>"

text \<open>
  Two live ranges, from 0 to 2 and from 2 to 4; the second one has assigned its first
  identifier, 2, to an object.
\<close>

definition pool_two_ranges :: "string UniqueObjectIdPool" where
  "pool_two_ranges =
     \<lparr>objects = [2 \<mapsto> ''x''], unusedRangeStart = 4, free = [],
      ranges = [\<lparr>id_start = 0, id_next = 0, id_end = 2\<rparr>,
                \<lparr>id_start = 2, id_next = 3, id_end = 4\<rparr>]\<rparr>"

subsection \<open>Histories of a pool\<close>

text \<open>
  The states a pool can be in, with the bookkeeping of who assigned what: \<open>reachable P A\<close>
  holds when the pool \<open>P\<close> results from a new pool by any sequence of \<open>getContinuousRange\<close>
  calls, of \<open>nextId\<close> calls on range objects of the pool and of \<open>recycle\<close> calls on them,
  and \<open>A r\<close> is the set of identifiers that \<open>nextId\<close> has returned on the range object \<open>r\<close>
  since that object was created or last recycled. No discipline is asked of the callers:
  a range may be used after its release, released twice, or asked for more identifiers
  than its length.
\<close>

inductive reachable :: "'o UniqueObjectIdPool \<Rightarrow> (nat \<Rightarrow> int set) \<Rightarrow> bool" where
  fresh: "reachable UniqueObjectIdPool_new (\<lambda>r. {})"
| acquire: "reachable P A \<Longrightarrow> getContinuousRange P n = (res, msgs, P') \<Longrightarrow> reachable P' A"
| assign: "reachable P A \<Longrightarrow> r < length (ranges P) \<Longrightarrow> nextId P r obj = (i, P') \<Longrightarrow>
           reachable P' (A(r := insert i (A r)))"
| release: "reachable P A \<Longrightarrow> r < length (ranges P) \<Longrightarrow> reachable (recycle P r) (A(r := {}))"

text \<open>The invariant of these histories.\<close>

definition poolInv :: "'o UniqueObjectIdPool \<Rightarrow> (nat \<Rightarrow> int set) \<Rightarrow> bool" where
  "poolInv P A \<longleftrightarrow>
     (\<forall>r. A r = (if r < length (ranges P)
                 then {id_start (ranges P ! r) ..< id_next (ranges P ! r)} else {})) \<and>
     (\<forall>r < length (ranges P). id_start (ranges P ! r) \<le> id_next (ranges P ! r)) \<and>
     (\<forall>i. objects P i \<noteq> None \<longrightarrow> (\<exists>r. i \<in> A r))"

text \<open>A new pool, one range of two identifiers acquired, and its first identifier assigned.\<close>

definition pool_one_assigned :: "string UniqueObjectIdPool" where
  "pool_one_assigned =
     snd (nextId (snd (snd (getContinuousRange UniqueObjectIdPool_new 2))) 0 ''a'')"

text \<open>
  A history in which a range is released twice: a new pool, a range of two identifiers
  acquired, that range recycled twice, a range of two acquired again (the same object),
  and its two identifiers assigned. The range object is still on the free list. With it,
  the identifiers that object has assigned since its last release.
\<close>

definition pool_double_release :: "string UniqueObjectIdPool" where
  "pool_double_release =
     snd (nextId
       (snd (nextId
         (snd (snd (getContinuousRange
            (recycle (recycle (snd (snd (getContinuousRange UniqueObjectIdPool_new 2))) 0) 0)
            2)))
         0 ''a''))
       0 ''b'')"

definition assigned_double_release :: "nat \<Rightarrow> int set" where
  "assigned_double_release = (\<lambda>r. {})(0 := {1, 0})"

text \<open>
  Correct use of a pool: identifiers are only asked of a range that is not on the free
  list, and only such a range is released.
\<close>

inductive properUse :: "'o UniqueObjectIdPool \<Rightarrow> bool" where
  fresh: "properUse UniqueObjectIdPool_new"
| acquire: "properUse P \<Longrightarrow> getContinuousRange P n = (res, msgs, P') \<Longrightarrow> properUse P'"
| assign: "properUse P \<Longrightarrow> r < length (ranges P) \<Longrightarrow> r \<notin> set (free P) \<Longrightarrow>
           nextId P r obj = (i, P') \<Longrightarrow> properUse P'"
| release: "properUse P \<Longrightarrow> r < length (ranges P) \<Longrightarrow> r \<notin> set (free P) \<Longrightarrow>
            properUse (recycle P r)"

section \<open>Geometry container and symmetry (scene.js, lines 130-613)\<close>

subsection \<open>The structure and assembly provider\<close>

text \<open>
  Modelled from the spec: the structure, its assemblies and its residues come from files
  of the repository that are not under src/. The specification gives their interface:
  \<open>assembly(name)\<close> returns an assembly or none, an assembly has generators, a generator
  has a list of chain names and an ordered list of transforms (\<open>matrix(i)\<close> is element \<open>i\<close>
  of \<open>matrices()\<close>), \<open>chainsByName(names)\<close> returns chains, and a residue has a central
  atom that may be absent. The methods are fields of the records; \<open>eachResidue\<close> is the
  list of the residues in the order in which the structure passes them to a callback. The
  type \<open>'m\<close> is the one of the transforms, \<open>'a\<close> the one of the atoms.
\<close>

record 'm SymGenerator =
  chains :: "string list"
  matrices :: "'m list"

record 'm Assembly =
  generators :: "'m SymGenerator list"

record 'a Residue =
  centralAtom :: "'a option"

record 'a Chain =
  chain_name :: string
  residues :: "'a Residue list"

record ('a, 'm) Structure =
  assembly :: "string \<Rightarrow> 'm Assembly option"
  eachResidue :: "'a Residue list"
  chainsByName :: "string list \<Rightarrow> 'a Chain list"

subsection \<open>BaseGeom\<close>

text \<open>
  A geometry has the fields \<open>_visible\<close> (of SceneNode), \<open>_showRelated\<close> and \<open>_vertAssocs\<close>; a
  vertex association holds the structure. The two classes derived from BaseGeom, LineGeom
  and MeshGeom, define \<open>vertArrays()\<close>, \<open>shaderForStyleAndPass\<close> and \<open>_drawVertArrays\<close>: the
  model keeps the class of the object in \<open>geomClass\<close> and the list that \<open>vertArrays()\<close>
  returns in \<open>vertArrays\<close>. The type \<open>'va\<close> is the one of the vertex arrays; their own
  methods are not under src/ and are parameters of the functions below, among them
  \<open>chain\<close>, the chain name of a vertex array.
\<close>

record ('a, 'm) VertAssoc =
  assoc_structure :: "('a, 'm) Structure"

datatype GeomClass = LineGeom | MeshGeom

record ('va, 'a, 'm) BaseGeom =
  visible :: bool
  showRelated :: string
  vertAssocs :: "('a, 'm) VertAssoc list"
  vertArrays :: "'va list"
  geomClass :: GeomClass
  lineWidth :: real

text \<open>A failure of the JavaScript code: reading a property of \<open>undefined\<close>.\<close>

datatype error = TypeError

text \<open>\<open>structure()\<close> is \<open>this._vertAssocs[0]._structure\<close>.\<close>

definition "structure" :: "('va, 'a, 'm) BaseGeom \<Rightarrow> error + ('a, 'm) Structure" where
  "structure g = (case vertAssocs g of [] \<Rightarrow> Inl TypeError | a # _ \<Rightarrow> Inr (assoc_structure a))"

text \<open>
  What a call does to the outside is returned as a value: the arguments of each
  \<open>console.error\<close> call, and the calls made on the rendering context, the camera and the
  vertex arrays, in their order.
\<close>

record Cam =
  upsamplingFactor :: real

datatype ('va, 'm, 'sh) GlCall =
    GlLineWidth real
  | GlUniform1i_symId 'sh int
  | CamBind 'sh
  | VaBind 'va 'sh
  | VaDraw 'va
  | VaReleaseAttribs 'va 'sh
  | VaDrawSymmetryRelated 'va 'sh "'m list"

text \<open>
  The shader catalog is an object; the map gives what reading a property of it returns,
  whether the property is its own or inherited, and \<open>None\<close> where that is \<open>undefined\<close>.
\<close>

definition shaderForStyleAndPass ::
  "GeomClass \<Rightarrow> (string \<rightharpoonup> 'sh) \<Rightarrow> string \<Rightarrow> string \<Rightarrow> 'sh option"
where
  "shaderForStyleAndPass cls shaderCatalog style pass =
     (case cls of
        LineGeom \<Rightarrow>
          (if pass = ''outline'' then None
           else if pass = ''select'' then shaderCatalog ''select''
           else shaderCatalog ''lines'')
      | MeshGeom \<Rightarrow>
          (if pass = ''outline'' then shaderCatalog ''outline''
           else if pass = ''select'' then shaderCatalog ''select''
           else shaderCatalog style))"

text \<open>
  \<open>_vertArraysInvolving\<close> puts the chain names into a plain object used as a set, with
  \<open>set[chains[ci]] = true\<close>, and then collects, in their order, the vertex arrays with
  \<open>set[chain] === true\<close>. The test holds exactly for the names the object has as its own
  properties. The assignment creates an own property for every name but \<open>__proto__\<close>: that
  name is an accessor of the prototype of every plain object, whose setter ignores a value
  that is not an object, and whose getter returns the prototype, which is not \<open>true\<close>.
  \<open>objectSet\<close> is the set of the own property names after the first loop.
\<close>

definition objectSet :: "string list \<Rightarrow> string set" where
  "objectSet chs = foldl (\<lambda>s c. if c = ''__proto__'' then s else insert c s) {} chs"

definition vertArraysInvolving ::
  "('va \<Rightarrow> string) \<Rightarrow> ('va, 'a, 'm) BaseGeom \<Rightarrow> string list \<Rightarrow> 'va list"
where
  "vertArraysInvolving chain g chs = filter (\<lambda>va. chain va \<in> objectSet chs) (vertArrays g)"

text \<open>
  \<open>_drawVertArrays\<close> of LineGeom and of MeshGeom. \<open>additionalTransforms\<close> is an array or
  \<open>null\<close>; an array, even an empty one, is truthy.
\<close>

definition drawVertArrays ::
  "('va, 'a, 'm) BaseGeom \<Rightarrow> Cam \<Rightarrow> 'sh \<Rightarrow> 'va list \<Rightarrow> 'm list option \<Rightarrow> ('va, 'm, 'sh) GlCall list"
where
  "drawVertArrays g cam shader vas additionalTransforms =
     (case geomClass g of
        LineGeom \<Rightarrow>
          GlLineWidth (lineWidth g * upsamplingFactor cam) #
          (case additionalTransforms of
             Some ts \<Rightarrow> map (\<lambda>va. VaDrawSymmetryRelated va shader ts) vas
           | None \<Rightarrow>
               GlUniform1i_symId shader 255 # CamBind shader #
               concat (map (\<lambda>va. [VaBind va shader, VaDraw va, VaReleaseAttribs va shader]) vas))
      | MeshGeom \<Rightarrow>
          (case additionalTransforms of
             Some ts \<Rightarrow> map (\<lambda>va. VaDrawSymmetryRelated va shader ts) vas
           | None \<Rightarrow>
               CamBind shader # GlUniform1i_symId shader 255 #
               concat (map (\<lambda>va. [VaBind va shader, VaDraw va, VaReleaseAttribs va shader]) vas)))"

definition drawSymmetryRelated ::
  "('va \<Rightarrow> string) \<Rightarrow> ('va, 'a, 'm) BaseGeom \<Rightarrow> Cam \<Rightarrow> 'sh \<Rightarrow> 'm Assembly \<Rightarrow> ('va, 'm, 'sh) GlCall list"
where
  "drawSymmetryRelated chain g cam shader asm =
     concat (map (\<lambda>gen.
        (let affectedVertArrays = vertArraysInvolving chain g (chains gen)
         in drawVertArrays g cam shader affectedVertArrays (Some (matrices gen))))
       (generators asm))"

text \<open>The arguments of the \<open>console.error\<close> call of the fallback.\<close>

definition noAssembly :: "string \<Rightarrow> string list" where
  "noAssembly rel = [''no assembly'', rel, ''found. Falling back to asymmetric unit'']"

definition draw ::
  "('va \<Rightarrow> string) \<Rightarrow> ('va, 'a, 'm) BaseGeom \<Rightarrow> Cam \<Rightarrow> (string \<rightharpoonup> 'sh) \<Rightarrow> string \<Rightarrow> string \<Rightarrow>
   error + (string list list \<times> ('va, 'm, 'sh) GlCall list)"
where
  "draw chain g cam shaderCatalog style pass =
     (if \<not> visible g then Inr ([], [])
      else
        (case shaderForStyleAndPass (geomClass g) shaderCatalog style pass of
           None \<Rightarrow> Inr ([], [])
         | Some shader \<Rightarrow>
             (if showRelated g = ''asym''
              then Inr ([], drawVertArrays g cam shader (vertArrays g) None)
              else
                (case structure g of
                   Inl e \<Rightarrow> Inl e
                 | Inr st \<Rightarrow>
                     (case assembly st (showRelated g) of
                        None \<Rightarrow>
                          Inr ([noAssembly (showRelated g)],
                               drawVertArrays g cam shader (vertArrays g) None)
                      | Some asm \<Rightarrow> Inr ([], drawSymmetryRelated chain g cam shader asm))))))"

text \<open>
  \<open>updateProjectionIntervals\<close>: \<open>vaProject\<close> is the method of the same name of a vertex
  array, which widens the three intervals (\<open>'iv\<close>) along the three axes (\<open>'ax\<close>); its last
  argument is the transform, \<open>None\<close> when the call passes none.
\<close>

definition updateProjectionIntervalsAsym ::
  "('va \<Rightarrow> 'ax \<Rightarrow> 'iv \<Rightarrow> 'm option \<Rightarrow> 'iv) \<Rightarrow> ('va, 'a, 'm) BaseGeom \<Rightarrow> 'ax \<Rightarrow> 'iv \<Rightarrow> 'iv"
where
  "updateProjectionIntervalsAsym vaProject g axes intervals =
     foldl (\<lambda>iv va. vaProject va axes iv None) intervals (vertArrays g)"

definition updateProjectionIntervals ::
  "('va \<Rightarrow> 'ax \<Rightarrow> 'iv \<Rightarrow> 'm option \<Rightarrow> 'iv) \<Rightarrow> ('va \<Rightarrow> string) \<Rightarrow> ('va, 'a, 'm) BaseGeom \<Rightarrow>
   'ax \<Rightarrow> 'iv \<Rightarrow> error + (string list list \<times> 'iv)"
where
  "updateProjectionIntervals vaProject chain g axes intervals =
     (if \<not> visible g then Inr ([], intervals)
      else if showRelated g = ''asym''
      then Inr ([], updateProjectionIntervalsAsym vaProject g axes intervals)
      else
        (case structure g of
           Inl e \<Rightarrow> Inl e
         | Inr st \<Rightarrow>
             (case assembly st (showRelated g) of
                None \<Rightarrow>
                  Inr ([noAssembly (showRelated g)],
                       updateProjectionIntervalsAsym vaProject g axes intervals)
              | Some asm \<Rightarrow>
                  Inr ([],
                    foldl (\<lambda>iv gen.
                      (let affectedVertArrays = vertArraysInvolving chain g (chains gen) in
                       foldl (\<lambda>iv transform.
                         foldl (\<lambda>iv va. vaProject va axes iv (Some transform)) iv affectedVertArrays)
                         iv (matrices gen)))
                      intervals (generators asm)))))"

text \<open>
  \<open>updateSquaredSphereRadius\<close>: \<open>vaRadius\<close> is the method of the same name of a vertex
  array. The loop over the transforms reads \<open>gen.matrix(j)\<close> into a variable and calls the
  method with the center and the radius only.
\<close>

definition updateSquaredSphereRadiusAsym ::
  "('va \<Rightarrow> 'c \<Rightarrow> 'r \<Rightarrow> 'm option \<Rightarrow> 'r) \<Rightarrow> ('va, 'a, 'm) BaseGeom \<Rightarrow> 'c \<Rightarrow> 'r \<Rightarrow> 'r"
where
  "updateSquaredSphereRadiusAsym vaRadius g center radius =
     foldl (\<lambda>radius va. vaRadius va center radius None) radius (vertArrays g)"

definition updateSquaredSphereRadius ::
  "('va \<Rightarrow> 'c \<Rightarrow> 'r \<Rightarrow> 'm option \<Rightarrow> 'r) \<Rightarrow> ('va \<Rightarrow> string) \<Rightarrow> ('va, 'a, 'm) BaseGeom \<Rightarrow>
   'c \<Rightarrow> 'r \<Rightarrow> error + (string list list \<times> 'r)"
where
  "updateSquaredSphereRadius vaRadius chain g center radius =
     (if \<not> visible g then Inr ([], radius)
      else if showRelated g = ''asym''
      then Inr ([], updateSquaredSphereRadiusAsym vaRadius g center radius)
      else
        (case structure g of
           Inl e \<Rightarrow> Inl e
         | Inr st \<Rightarrow>
             (case assembly st (showRelated g) of
                None \<Rightarrow>
                  Inr ([noAssembly (showRelated g)],
                       updateSquaredSphereRadiusAsym vaRadius g center radius)
              | Some asm \<Rightarrow>
                  Inr ([],
                    foldl (\<lambda>radius gen.
                      (let affectedVertArrays = vertArraysInvolving chain g (chains gen) in
                       foldl (\<lambda>radius transform.
                         foldl (\<lambda>radius va. vaRadius va center radius None) radius affectedVertArrays)
                         radius (matrices gen)))
                      radius (generators asm)))))"

text \<open>
  The symmetric branch of \<open>updateSquaredSphereRadius\<close> as claim C1 words it, for the
  comparison with the code: each chain-matching vertex array is measured under each
  transform of each generator.
\<close>

definition updateSquaredSphereRadius_claimed ::
  "('va \<Rightarrow> 'c \<Rightarrow> 'r \<Rightarrow> 'm option \<Rightarrow> 'r) \<Rightarrow> ('va \<Rightarrow> string) \<Rightarrow> ('va, 'a, 'm) BaseGeom \<Rightarrow>
   'm Assembly \<Rightarrow> 'c \<Rightarrow> 'r \<Rightarrow> 'r"
where
  "updateSquaredSphereRadius_claimed vaRadius chain g asm center radius =
     foldl (\<lambda>radius gen.
       foldl (\<lambda>radius transform.
         foldl (\<lambda>radius va. vaRadius va center radius (Some transform)) radius
           (vertArraysInvolving chain g (chains gen)))
         radius (matrices gen))
       radius (generators asm)"

text \<open>
  \<open>eachCentralAtom\<close>: \<open>pos\<close> is the position of an atom and \<open>transformMat4\<close> the product of a
  position with a transform (of the gl-matrix library). The result lists the calls of the
  callback.
\<close>

definition eachCentralAtomAsym :: "('a \<Rightarrow> 'p) \<Rightarrow> ('a, 'm) Structure \<Rightarrow> ('a \<times> 'p) list" where
  "eachCentralAtomAsym pos st =
     concat (map (\<lambda>residue.
        (case centralAtom residue of
           None \<Rightarrow> []
         | Some a \<Rightarrow> [(a, pos a)]))
       (eachResidue st))"

definition eachCentralAtomSym ::
  "('a \<Rightarrow> 'p) \<Rightarrow> ('p \<Rightarrow> 'm \<Rightarrow> 'p) \<Rightarrow> ('a, 'm) Structure \<Rightarrow> 'm SymGenerator list \<Rightarrow> ('a \<times> 'p) list"
where
  "eachCentralAtomSym pos transformMat4 st gens =
     concat (map (\<lambda>gen.
       (let chs = chainsByName st (chains gen) in
        concat (map (\<lambda>matrix.
          concat (map (\<lambda>ch.
            concat (map (\<lambda>residue.
              (case centralAtom residue of
                 None \<Rightarrow> []
               | Some a \<Rightarrow> [(a, transformMat4 (pos a) matrix)]))
              (residues ch)))
            chs))
          (matrices gen))))
       gens)"

definition eachCentralAtom ::
  "('a \<Rightarrow> 'p) \<Rightarrow> ('p \<Rightarrow> 'm \<Rightarrow> 'p) \<Rightarrow> ('va, 'a, 'm) BaseGeom \<Rightarrow>
   error + (string list list \<times> ('a \<times> 'p) list)"
where
  "eachCentralAtom pos transformMat4 g =
     (case structure g of
        Inl e \<Rightarrow> Inl e
      | Inr st \<Rightarrow>
          (case assembly st (showRelated g) of
             None \<Rightarrow> Inr ([], eachCentralAtomAsym pos st)
           | Some asm \<Rightarrow> Inr ([], eachCentralAtomSym pos transformMat4 st (generators asm))))"

text \<open>
  Reading the calls: the \<open>drawSymmetryRelated\<close> calls with the vertex array and the
  transform list of each, the vertex arrays of the plain \<open>draw\<close> calls, and the pairs of a
  vertex array and a transform that the \<open>drawSymmetryRelated\<close> calls cover.
\<close>

fun symDraws :: "('va, 'm, 'sh) GlCall list \<Rightarrow> ('va \<times> 'm list) list" where
  "symDraws [] = []"
| "symDraws (VaDrawSymmetryRelated va sh ts # cs) = (va, ts) # symDraws cs"
| "symDraws (c # cs) = symDraws cs"

fun plainDraws :: "('va, 'm, 'sh) GlCall list \<Rightarrow> 'va list" where
  "plainDraws [] = []"
| "plainDraws (VaDraw va # cs) = va # plainDraws cs"
| "plainDraws (c # cs) = plainDraws cs"

definition drawPairs :: "('va, 'm, 'sh) GlCall list \<Rightarrow> ('va \<times> 'm) list" where
  "drawPairs cs = concat (map (\<lambda>(va, ts). map (Pair va) ts) (symDraws cs))"

subsection \<open>Example geometries\<close>

text \<open>
  A structure with three assemblies: \<open>''1''\<close> has one generator for chain A with two
  transforms, \<open>''2''\<close> has one generator for chain A with three transforms and one for
  chain B with one, and \<open>''3''\<close> has one generator for a chain named \<open>__proto__\<close> with one
  transform. In the examples a vertex array is a chain name with vertex positions
  on a line, and a transform is a translation along that line.
\<close>

definition ex_assembly :: "int Assembly" where
  "ex_assembly = \<lparr>generators = [\<lparr>chains = [''A''], matrices = [10, 20]\<rparr>]\<rparr>"

definition ex_assembly_AB :: "int Assembly" where
  "ex_assembly_AB =
     \<lparr>generators = [\<lparr>chains = [''A''], matrices = [1, 2, 3]\<rparr>,
                     \<lparr>chains = [''B''], matrices = [0]\<rparr>]\<rparr>"

definition ex_assembly_proto :: "int Assembly" where
  "ex_assembly_proto = \<lparr>generators = [\<lparr>chains = [''__proto__''], matrices = [5]\<rparr>]\<rparr>"

definition ex_structure :: "(string, int) Structure" where
  "ex_structure =
     \<lparr>assembly = map_of [(''1'', ex_assembly), (''2'', ex_assembly_AB), (''3'', ex_assembly_proto)],
      eachResidue = [\<lparr>centralAtom = Some ''CA''\<rparr>, \<lparr>centralAtom = None\<rparr>],
      chainsByName = (\<lambda>names.
         filter (\<lambda>c. chain_name c \<in> set names)
           [\<lparr>chain_name = ''A'',
             residues = [\<lparr>centralAtom = Some ''CA''\<rparr>, \<lparr>centralAtom = None\<rparr>]\<rparr>])\<rparr>"

definition ex_geom :: "string \<Rightarrow> bool \<Rightarrow> GeomClass \<Rightarrow> (string \<times> int list, string, int) BaseGeom" where
  "ex_geom rel vis cls =
     \<lparr>visible = vis, showRelated = rel, vertAssocs = [\<lparr>assoc_structure = ex_structure\<rparr>],
      vertArrays = [(''A'', [1]), (''B'', [2]), (''C'', [3])], geomClass = cls, lineWidth = 1\<rparr>"

text \<open>A visible mesh geometry showing assembly \<open>''3''\<close>, with one vertex array, of the chain
  named \<open>__proto__\<close>.\<close>

definition ex_geom_proto :: "(string \<times> int list, string, int) BaseGeom" where
  "ex_geom_proto =
     \<lparr>visible = True, showRelated = ''3'', vertAssocs = [\<lparr>assoc_structure = ex_structure\<rparr>],
      vertArrays = [(''__proto__'', [1])], geomClass = MeshGeom, lineWidth = 1\<rparr>"

definition ex_catalog :: "string \<rightharpoonup> string" where
  "ex_catalog = [''select'' \<mapsto> ''selectShader'', ''lines'' \<mapsto> ''lineShader'',
                 ''outline'' \<mapsto> ''outlineShader'', ''hemilight'' \<mapsto> ''hemilightShader'']"

definition ex_cam :: Cam where
  "ex_cam = \<lparr>upsamplingFactor = 2\<rparr>"

definition ex_pos :: "string \<Rightarrow> int" where
  "ex_pos a = 7"

definition ex_transformMat4 :: "int \<Rightarrow> int \<Rightarrow> int" where
  "ex_transformMat4 p m = p + m"

text \<open>
  Modelled from the spec: the methods \<open>updateSquaredSphereRadius\<close> and
  \<open>updateProjectionIntervals\<close> of a vertex array are not under src/. For the examples,
  they widen the squared radius, or the interval, over the positions of the vertex array,
  after each position has been moved by the transform when one is passed.
\<close>

definition ex_vaRadius :: "string \<times> int list \<Rightarrow> int \<Rightarrow> int \<Rightarrow> int option \<Rightarrow> int" where
  "ex_vaRadius va center radius transform =
     foldl (\<lambda>r p. max r ((p + (case transform of None \<Rightarrow> 0 | Some d \<Rightarrow> d) - center)\<^sup>2))
       radius (snd va)"

definition ex_vaProject :: "string \<times> int list \<Rightarrow> unit \<Rightarrow> Range \<Rightarrow> int option \<Rightarrow> Range" where
  "ex_vaProject va axes interval transform =
     updates interval
       (map (\<lambda>p. Num (real_of_int (p + (case transform of None \<Rightarrow> 0 | Some d \<Rightarrow> d)))) (snd va))"

section \<open>Vertex-array partitioner (scene.js, MeshGeom, lines 491-549)\<close>

text \<open>
  Modelled from the spec: the classes of the vertex arrays, \<open>MeshChainData\<close> and
  \<open>IndexedVertexArray\<close>, are not under src/. A vertex array has a capacity and a count of
  vertices and of indices, a \<open>MeshChainData\<close> has a chain name as well, and a vertex array
  is created empty with the capacities passed to its constructor.
\<close>

datatype VertArray =
    MeshChainData string (maxVerts: int) (numVerts: int) (maxIndices: int) (numIndices: int)
  | IndexedVertexArray (maxVerts: int) (numVerts: int) (maxIndices: int) (numIndices: int)

definition MeshChainData_new :: "string \<Rightarrow> int \<Rightarrow> int \<Rightarrow> VertArray" where
  "MeshChainData_new chain nVerts nIndices = MeshChainData chain nVerts 0 nIndices 0"

definition IndexedVertexArray_new :: "int \<Rightarrow> int \<Rightarrow> VertArray" where
  "IndexedVertexArray_new nVerts nIndices = IndexedVertexArray nVerts 0 nIndices 0"

text \<open>
  The fields of MeshGeom that the partitioner uses: \<open>_indexedVertArrays\<close>,
  \<open>_remainingVerts\<close> and \<open>_remainingIndices\<close>; the last two are \<open>null\<close> in a new MeshGeom.
\<close>

record MeshGeom =
  indexedVertArrays :: "VertArray list"
  remainingVerts :: "int option"
  remainingIndices :: "int option"

definition MeshGeom_new :: MeshGeom where
  "MeshGeom_new = \<lparr>indexedVertArrays = [], remainingVerts = None, remainingIndices = None\<rparr>"

text \<open>In a subtraction JavaScript converts \<open>null\<close> to the number 0.\<close>

fun jsNumber :: "int option \<Rightarrow> int" where
  "jsNumber None = 0"
| "jsNumber (Some x) = x"

definition boundedVertArraySize :: "int \<Rightarrow> int" where
  "boundedVertArraySize sz = min 65536 sz"

text \<open>\<open>addChainVertArray\<close> is passed the chain; the model takes its name.\<close>

definition addChainVertArray :: "MeshGeom \<Rightarrow> string \<Rightarrow> int \<Rightarrow> int \<Rightarrow> VertArray \<times> MeshGeom" where
  "addChainVertArray g chainName nVerts nIndices =
     (let newVa = MeshChainData_new chainName (boundedVertArraySize nVerts) nIndices in
      (newVa,
       g\<lparr>remainingVerts := Some nVerts, remainingIndices := Some nIndices,
         indexedVertArrays := indexedVertArrays g @ [newVa]\<rparr>))"

definition addVertArray :: "MeshGeom \<Rightarrow> int \<Rightarrow> int \<Rightarrow> VertArray \<times> MeshGeom" where
  "addVertArray g nVerts nIndices =
     (let newVa = IndexedVertexArray_new (boundedVertArraySize nVerts) nIndices in
      (newVa,
       g\<lparr>remainingVerts := Some nVerts, remainingIndices := Some nIndices,
         indexedVertArrays := indexedVertArrays g @ [newVa]\<rparr>))"

text \<open>
  \<open>vertArrayWithSpaceFor\<close> reads the last element of \<open>_indexedVertArrays\<close>; without any,
  the call of \<open>maxVerts\<close> on \<open>undefined\<close> fails.
\<close>

definition vertArrayWithSpaceFor :: "MeshGeom \<Rightarrow> int \<Rightarrow> error + (VertArray \<times> MeshGeom)" where
  "vertArrayWithSpaceFor g nVerts =
     (if indexedVertArrays g = [] then Inl TypeError
      else
        (let currentVa = last (indexedVertArrays g);
             remaining = maxVerts currentVa - numVerts currentVa
         in
         if remaining \<ge> nVerts then Inr (currentVa, g)
         else
           (let remV = jsNumber (remainingVerts g) - numVerts currentVa;
                remI = jsNumber (remainingIndices g) - numIndices currentVa;
                nVerts' = boundedVertArraySize remV;
                newVa =
                  (case currentVa of
                     MeshChainData c _ _ _ _ \<Rightarrow> MeshChainData_new c nVerts' remI
                   | IndexedVertexArray _ _ _ _ \<Rightarrow> IndexedVertexArray_new nVerts' remI)
            in
            Inr (newVa,
                 g\<lparr>remainingVerts := Some remV, remainingIndices := Some remI,
                   indexedVertArrays := indexedVertArrays g @ [newVa]\<rparr>))))"

text \<open>The chain tag of a vertex array, none for a plain \<open>IndexedVertexArray\<close>.\<close>

fun chainTag :: "VertArray \<Rightarrow> string option" where
  "chainTag (MeshChainData c _ _ _ _) = Some c"
| "chainTag (IndexedVertexArray _ _ _ _) = None"

text \<open>
  A mesh geometry declared with 100000 vertices and 300000 indices, whose first vertex
  array has two free vertex slots left.
\<close>

definition ex_meshGeom :: MeshGeom where
  "ex_meshGeom =
     \<lparr>indexedVertArrays = [MeshChainData ''A'' 65536 65534 300000 196602],
      remainingVerts = Some 100000, remainingIndices = Some 300000\<rparr>"

section \<open>Theorems\<close>

subsection \<open>Range\<close>

lemma js_less_irrefl: "\<not> js_less a a"
  by (cases a) simp_all

lemma js_less_trans: "js_less a b \<Longrightarrow> js_less b c \<Longrightarrow> js_less a c"
  by (cases a; cases b; cases c) simp_all

lemma js_less_asym: "js_less a b \<Longrightarrow> \<not> js_less b a"
  by (cases a; cases b) simp_all

lemma js_less_total: "a \<noteq> NaN \<Longrightarrow> b \<noteq> NaN \<Longrightarrow> js_less a b \<or> a = b \<or> js_less b a"
  by (cases a; cases b) auto

lemma updates_snoc: "updates r (vs @ [v]) = update (updates r vs) v"
  by (simp add: updates_def)

lemma isMinimum_unique:
  assumes "isMinimum vs m" and "isMinimum ws m'" and "set vs = set ws"
  shows "m = m'"
proof -
  from assms have "m = m' \<or> js_less m m'" and "m' = m \<or> js_less m' m"
    by (simp_all add: isMinimum_def)
  then show ?thesis
    using js_less_asym [of m m'] by fastforce
qed

lemma isMaximum_unique:
  assumes "isMaximum vs m" and "isMaximum ws m'" and "set vs = set ws"
  shows "m = m'"
proof -
  from assms have "m = m' \<or> js_less m' m" and "m' = m \<or> js_less m m'"
    by (simp_all add: isMaximum_def)
  then show ?thesis
    using js_less_asym [of m m'] by fastforce
qed

lemma updates_fresh:
  "vs \<noteq> [] \<Longrightarrow> NaN \<notin> set vs \<Longrightarrow>
   \<exists>m M. updates (Range_new None None) vs = \<lparr>r_empty = False, r_min = Some m, r_max = Some M\<rparr> \<and>
         isMinimum vs m \<and> isMaximum vs M"
proof (induction vs rule: rev_induct)
  case Nil
  then show ?case by simp
next
  case (snoc v vs)
  show ?case
  proof (cases "vs = []")
    case True
    then show ?thesis
      by (simp add: updates_def update_def Range_new_def isMinimum_def isMaximum_def)
  next
    case False
    from snoc.prems have nan: "NaN \<notin> set vs" and v: "v \<noteq> NaN" by auto
    from snoc.IH [OF False nan] obtain m M where
      r: "updates (Range_new None None) vs = \<lparr>r_empty = False, r_min = Some m, r_max = Some M\<rparr>"
      and mn: "isMinimum vs m" and mx: "isMaximum vs M"
      by blast
    from mn mx nan have m: "m \<noteq> NaN" and M: "M \<noteq> NaN"
      and mM: "m = M \<or> js_less m M"
      by (auto simp: isMinimum_def isMaximum_def)
    show ?thesis
    proof (cases "js_less v m")
      case True
      have vM: "js_less v M"
        using True mM js_less_trans by blast
      have "updates (Range_new None None) (vs @ [v])
            = \<lparr>r_empty = False, r_min = Some v, r_max = Some M\<rparr>"
        using True by (simp add: updates_snoc r update_def)
      moreover have "isMinimum (vs @ [v]) v"
        using mn True js_less_trans by (auto simp: isMinimum_def)
      moreover have "isMaximum (vs @ [v]) M"
        using mx vM by (auto simp: isMaximum_def)
      ultimately show ?thesis by blast
    next
      case notless: False
      with js_less_total [OF v m] have mv: "m = v \<or> js_less m v" by blast
      show ?thesis
      proof (cases "js_less M v")
        case True
        have "updates (Range_new None None) (vs @ [v])
              = \<lparr>r_empty = False, r_min = Some m, r_max = Some v\<rparr>"
          using notless True by (simp add: updates_snoc r update_def)
        moreover have "isMinimum (vs @ [v]) m"
          using mn mv by (auto simp: isMinimum_def)
        moreover have "isMaximum (vs @ [v]) v"
          using mx True js_less_trans by (auto simp: isMaximum_def)
        ultimately show ?thesis by blast
      next
        case False
        with js_less_total [OF M v] have Mv: "M = v \<or> js_less v M" by blast
        have "updates (Range_new None None) (vs @ [v])
              = \<lparr>r_empty = False, r_min = Some m, r_max = Some M\<rparr>"
          using notless False by (simp add: updates_snoc r update_def)
        moreover have "isMinimum (vs @ [v]) m"
          using mn mv by (auto simp: isMinimum_def)
        moreover have "isMaximum (vs @ [v]) M"
          using mx Mv by (auto simp: isMaximum_def)
        ultimately show ?thesis by blast
      qed
    qed
  qed
qed

lemma update_widens:
  "\<not> r_empty r \<Longrightarrow>
   (r_min (update r v) = r_min r \<or> js_less (toNumber (r_min (update r v))) (toNumber (r_min r))) \<and>
   (r_max (update r v) = r_max r \<or> js_less (toNumber (r_max r)) (toNumber (r_max (update r v))))"
  by (simp add: update_def)

lemma updates_fresh_perm:
  assumes perm: "mset vs = mset ws" and nan: "NaN \<notin> set vs"
  shows "updates (Range_new None None) vs = updates (Range_new None None) ws"
proof (cases "vs = []")
  case True
  with perm have "ws = []" by simp
  with True show ?thesis by simp
next
  case False
  from perm have st: "set vs = set ws" by (rule mset_eq_setD)
  from False st have ws: "ws \<noteq> []" by auto
  from nan st have nan': "NaN \<notin> set ws" by simp
  from updates_fresh [OF False nan] obtain m M where
    a: "updates (Range_new None None) vs = \<lparr>r_empty = False, r_min = Some m, r_max = Some M\<rparr>"
    and mn: "isMinimum vs m" and mx: "isMaximum vs M"
    by blast
  from updates_fresh [OF ws nan'] obtain m' M' where
    b: "updates (Range_new None None) ws = \<lparr>r_empty = False, r_min = Some m', r_max = Some M'\<rparr>"
    and mn': "isMinimum ws m'" and mx': "isMaximum ws M'"
    by blast
  have "m = m'" by (rule isMinimum_unique [OF mn mn' st])
  moreover have "M = M'" by (rule isMaximum_unique [OF mx mx' st])
  ultimately show ?thesis unfolding a b by simp
qed

text \<open>
  Claim C9, as stated, fails for sequences that hold \<open>NaN\<close>: \<open>update(NaN)\<close> followed by
  \<open>update(1)\<close> leaves both bounds \<open>NaN\<close>, since every comparison with \<open>NaN\<close> is false, while
  the same two values in the other order leave both bounds 1. The bounds are then neither
  the minimum and the maximum of the values nor independent of their order.
\<close>

theorem C9_range_update_min_max_counterexample:
  "mset [NaN, Num 1] = mset [Num 1, NaN] \<and>
   updates (Range_new None None) [NaN, Num 1]
     = \<lparr>r_empty = False, r_min = Some NaN, r_max = Some NaN\<rparr> \<and>
   updates (Range_new None None) [Num 1, NaN]
     = \<lparr>r_empty = False, r_min = Some (Num 1), r_max = Some (Num 1)\<rparr>"
  by (simp add: updates_def update_def Range_new_def)

text \<open>
  Claim C9, amended. A Range constructed without arguments is empty and stays so while it
  is not updated. After a nonempty sequence of \<open>update\<close> calls with values none of which is
  \<open>NaN\<close> it is non-empty, its minimum is the minimum and its maximum the maximum of the
  values passed. An update of a non-empty Range, with any value, leaves the minimum as it
  is or lowers it, and leaves the maximum as it is or raises it. Two sequences without
  \<open>NaN\<close> that hold the same values in any order leave the same Range.
\<close>

theorem C9_range_update_min_max:
  "r_empty (updates (Range_new None None) []) \<and>
   (vs \<noteq> [] \<and> NaN \<notin> set vs \<longrightarrow>
      \<not> r_empty (updates (Range_new None None) vs) \<and>
      (\<exists>m M. r_min (updates (Range_new None None) vs) = Some m \<and>
             r_max (updates (Range_new None None) vs) = Some M \<and>
             isMinimum vs m \<and> isMaximum vs M)) \<and>
   (\<not> r_empty r \<longrightarrow>
      (r_min (update r v) = r_min r \<or>
         js_less (toNumber (r_min (update r v))) (toNumber (r_min r))) \<and>
      (r_max (update r v) = r_max r \<or>
         js_less (toNumber (r_max r)) (toNumber (r_max (update r v))))) \<and>
   (NaN \<notin> set vs \<and> mset vs = mset ws \<longrightarrow>
      updates (Range_new None None) vs = updates (Range_new None None) ws)"
proof -
  have e: "r_empty (updates (Range_new None None) [])"
    by (simp add: updates_def Range_new_def)
  have a: "vs \<noteq> [] \<and> NaN \<notin> set vs \<longrightarrow>
      \<not> r_empty (updates (Range_new None None) vs) \<and>
      (\<exists>m M. r_min (updates (Range_new None None) vs) = Some m \<and>
             r_max (updates (Range_new None None) vs) = Some M \<and>
             isMinimum vs m \<and> isMaximum vs M)"
  proof
    assume "vs \<noteq> [] \<and> NaN \<notin> set vs"
    then obtain m M where
      "updates (Range_new None None) vs = \<lparr>r_empty = False, r_min = Some m, r_max = Some M\<rparr>"
      and "isMinimum vs m" and "isMaximum vs M"
      using updates_fresh [of vs] by blast
    then show "\<not> r_empty (updates (Range_new None None) vs) \<and>
      (\<exists>m M. r_min (updates (Range_new None None) vs) = Some m \<and>
             r_max (updates (Range_new None None) vs) = Some M \<and>
             isMinimum vs m \<and> isMaximum vs M)"
      by simp
  qed
  have w: "\<not> r_empty r \<longrightarrow>
      (r_min (update r v) = r_min r \<or>
         js_less (toNumber (r_min (update r v))) (toNumber (r_min r))) \<and>
      (r_max (update r v) = r_max r \<or>
         js_less (toNumber (r_max r)) (toNumber (r_max (update r v))))"
    using update_widens [of r v] by blast
  have p: "NaN \<notin> set vs \<and> mset vs = mset ws \<longrightarrow>
      updates (Range_new None None) vs = updates (Range_new None None) ws"
    using updates_fresh_perm [of vs ws] by blast
  from e a w p show ?thesis by (intro conjI)
qed

theorem C9_range_update_min_max_witness:
  "updates (Range_new None None) [Num 3, NegInf, Num 2]
     = \<lparr>r_empty = False, r_min = Some NegInf, r_max = Some (Num 3)\<rparr> \<and>
   isMinimum [Num 3, NegInf, Num 2] NegInf \<and> isMaximum [Num 3, NegInf, Num 2] (Num 3) \<and>
   updates (Range_new None None) [Num 3, NegInf, Num 2]
     = updates (Range_new None None) [Num 2, Num 3, NegInf] \<and>
   js_less (toNumber (r_min (update (Range_new (Some (Num 1)) (Some (Num 3))) (Num 0))))
     (toNumber (r_min (Range_new (Some (Num 1)) (Some (Num 3)))))"
proof -
  note h = C9_range_update_min_max
    [of "[Num 3, NegInf, Num 2]" "Range_new (Some (Num 1)) (Some (Num 3))" "Num 0"
        "[Num 2, Num 3, NegInf]"]
  have ne: "[Num 3, NegInf, Num 2] \<noteq> [] \<and> NaN \<notin> set [Num 3, NegInf, Num 2]"
    and nemp: "\<not> r_empty (Range_new (Some (Num 1)) (Some (Num 3)))"
    and perm: "NaN \<notin> set [Num 3, NegInf, Num 2] \<and>
               mset [Num 3, NegInf, Num 2] = mset [Num 2, Num 3, NegInf]"
    by (simp_all add: Range_new_def)
  have run: "updates (Range_new None None) [Num 3, NegInf, Num 2]
     = \<lparr>r_empty = False, r_min = Some NegInf, r_max = Some (Num 3)\<rparr>"
    by (simp add: updates_def update_def Range_new_def)
  from h ne obtain m M where
    "r_min (updates (Range_new None None) [Num 3, NegInf, Num 2]) = Some m"
    "r_max (updates (Range_new None None) [Num 3, NegInf, Num 2]) = Some M"
    "isMinimum [Num 3, NegInf, Num 2] m" "isMaximum [Num 3, NegInf, Num 2] M"
    by blast
  with run have mn: "isMinimum [Num 3, NegInf, Num 2] NegInf"
    and mx: "isMaximum [Num 3, NegInf, Num 2] (Num 3)"
    by simp_all
  from h perm have c:
    "updates (Range_new None None) [Num 3, NegInf, Num 2]
       = updates (Range_new None None) [Num 2, Num 3, NegInf]"
    by blast
  from h nemp have
    "r_min (update (Range_new (Some (Num 1)) (Some (Num 3))) (Num 0))
       = r_min (Range_new (Some (Num 1)) (Some (Num 3))) \<or>
     js_less (toNumber (r_min (update (Range_new (Some (Num 1)) (Some (Num 3))) (Num 0))))
       (toNumber (r_min (Range_new (Some (Num 1)) (Some (Num 3)))))"
    by blast
  then have b:
    "js_less (toNumber (r_min (update (Range_new (Some (Num 1)) (Some (Num 3))) (Num 0))))
       (toNumber (r_min (Range_new (Some (Num 1)) (Some (Num 3)))))"
    by (simp add: Range_new_def update_def)
  from run mn mx c b show ?thesis by (intro conjI)
qed

subsection \<open>Id pool: the search of the free list\<close>

lemma scanInv_step:
  assumes "scanInv lens n (bi, bl)"
  shows "scanInv (lens @ [l]) n
          (if n \<le> l \<and> (bl = None \<or> l < the bl) then (int (length lens), Some l) else (bi, bl))"
  using assms
  unfolding scanInv_def isBestFit_def
  by (auto simp: nth_append less_Suc_eq)

lemma scanFree_inv:
  "scanInv (map (\<lambda>f. rlength (rs ! f)) pre) n best \<Longrightarrow>
   scanInv (map (\<lambda>f. rlength (rs ! f)) (pre @ fs)) n (scanFree rs fs n (length pre) best)"
proof (induction fs arbitrary: pre best)
  case Nil
  then show ?case by simp
next
  case (Cons f fs)
  obtain bi bl where b: "best = (bi, bl)" by (cases best)
  let ?L = "\<lambda>xs. map (\<lambda>f. rlength (rs ! f)) xs"
  let ?best' = "if n \<le> rlength (rs ! f) \<and> (bl = None \<or> rlength (rs ! f) < the bl)
                then (int (length pre), Some (rlength (rs ! f))) else (bi, bl)"
  have "scanInv (?L pre) n (bi, bl)"
    using Cons.prems b by simp
  then have "scanInv (?L pre @ [rlength (rs ! f)]) n
     (if n \<le> rlength (rs ! f) \<and> (bl = None \<or> rlength (rs ! f) < the bl)
      then (int (length (?L pre)), Some (rlength (rs ! f))) else (bi, bl))"
    by (rule scanInv_step)
  then have "scanInv (?L (pre @ [f])) n ?best'"
    by (simp only: length_map map_append list.map)
  from Cons.IH [OF this] show ?case
    by (simp add: b Let_def)
qed

lemma scanFree_start:
  "scanInv (map (\<lambda>f. rlength (rs ! f)) fs) n (scanFree rs fs n 0 (- 1, None))"
  using scanFree_inv [of rs "[]" n "(- 1, None)" fs]
  by (simp add: scanInv_def)

lemma scanFree_miss:
  fixes P :: "'o UniqueObjectIdPool"
  assumes "\<forall>f\<in>set (free P). rlength (ranges P ! f) < n"
  shows "scanFree (ranges P) (free P) n 0 (- 1, None) = (- 1, None)"
proof -
  have inv: "scanInv (freeLengths P) n (scanFree (ranges P) (free P) n 0 (- 1, None))"
    unfolding freeLengths_def by (rule scanFree_start)
  have "\<not> isBestFit (freeLengths P) n k" for k
  proof
    assume "isBestFit (freeLengths P) n k"
    then have "k < length (free P)" "n \<le> rlength (ranges P ! (free P ! k))"
      by (auto simp: isBestFit_def freeLengths_def)
    moreover from this assms have "rlength (ranges P ! (free P ! k)) < n"
      by (simp add: nth_mem)
    ultimately show False by simp
  qed
  with inv show ?thesis
    by (auto simp: scanInv_def prod_eq_iff)
qed

lemma scanFree_hit:
  fixes P :: "'o UniqueObjectIdPool"
  assumes "\<exists>f\<in>set (free P). n \<le> rlength (ranges P ! f)"
  shows "\<exists>k. isBestFit (freeLengths P) n k \<and>
           scanFree (ranges P) (free P) n 0 (- 1, None) = (int k, Some (freeLengths P ! k))"
proof -
  have inv: "scanInv (freeLengths P) n (scanFree (ranges P) (free P) n 0 (- 1, None))"
    unfolding freeLengths_def by (rule scanFree_start)
  from assms obtain j where "j < length (free P)" "n \<le> rlength (ranges P ! (free P ! j))"
    by (auto simp: in_set_conv_nth)
  then have "\<exists>j < length (freeLengths P). n \<le> freeLengths P ! j"
    by (auto simp: freeLengths_def)
  with inv show ?thesis
    by (auto simp: scanInv_def prod_eq_iff)
qed

lemma getContinuousRange_hit:
  fixes P :: "'o UniqueObjectIdPool"
  assumes "\<exists>f\<in>set (free P). n \<le> rlength (ranges P ! f)"
  shows "\<exists>k. isBestFit (freeLengths P) n k \<and>
           getContinuousRange P n = (Some (free P ! k), [], P\<lparr>free := splice1 (free P) k\<rparr>)"
proof -
  from scanFree_hit [OF assms] obtain k where
    k: "isBestFit (freeLengths P) n k"
    and s: "scanFree (ranges P) (free P) n 0 (- 1, None) = (int k, Some (freeLengths P ! k))"
    by blast
  have "getContinuousRange P n = (Some (free P ! k), [], P\<lparr>free := splice1 (free P) k\<rparr>)"
    by (simp add: getContinuousRange_def s)
  with k show ?thesis by blast
qed

lemma getContinuousRange_miss:
  fixes P :: "'o UniqueObjectIdPool"
  assumes "\<forall>f\<in>set (free P). rlength (ranges P ! f) < n"
  shows "getContinuousRange P n =
           (if unusedRangeStart P + n > 65536
            then (None, [''not enough free object ids.''], P)
            else (Some (length (ranges P)), [],
                  P\<lparr>unusedRangeStart := unusedRangeStart P + n,
                    ranges := ranges P @
                      [\<lparr>id_start = unusedRangeStart P, id_next = unusedRangeStart P,
                        id_end = unusedRangeStart P + n\<rparr>]\<rparr>))"
  using scanFree_miss [OF assms]
  by (simp add: getContinuousRange_def Let_def)

lemma getContinuousRange_cases:
  fixes P :: "'o UniqueObjectIdPool"
  assumes "getContinuousRange P n = (res, msgs, P')"
  shows "(\<exists>k. P' = P\<lparr>free := splice1 (free P) k\<rparr>) \<or> P' = P \<or>
         P' = P\<lparr>unusedRangeStart := unusedRangeStart P + n,
                ranges := ranges P @
                  [\<lparr>id_start = unusedRangeStart P, id_next = unusedRangeStart P,
                    id_end = unusedRangeStart P + n\<rparr>]\<rparr>"
proof (cases "\<exists>f\<in>set (free P). n \<le> rlength (ranges P ! f)")
  case True
  from getContinuousRange_hit [OF True] assms show ?thesis by auto
next
  case False
  then have miss: "\<forall>f\<in>set (free P). rlength (ranges P ! f) < n" by auto
  from getContinuousRange_miss [OF miss] assms show ?thesis
    by (auto split: if_splits)
qed

lemma getContinuousRange_new:
  "n \<le> 65536 \<Longrightarrow>
   getContinuousRange (UniqueObjectIdPool_new :: 'o UniqueObjectIdPool) n =
     (Some 0, [],
      \<lparr>objects = Map.empty, unusedRangeStart = n, free = [],
       ranges = [\<lparr>id_start = 0, id_next = 0, id_end = n\<rparr>]\<rparr>)"
  by (simp add: getContinuousRange_def UniqueObjectIdPool_new_def)

text \<open>
  Claim C2. Whatever the free list holds and whatever size \<open>n\<close> is requested: when some free
  range has a length of at least \<open>n\<close>, \<open>getContinuousRange\<close> returns the free range of the
  smallest sufficient length, the earliest one of that length in the list, removes it
  from the list and leaves the rest of the pool as it was; a fresh range is carved from
  the unused tail only when no free range has a length of at least \<open>n\<close>. With free ranges
  of lengths 5, 10 and 3, a request for 4 returns the range of length 5.
\<close>

theorem C2_best_fit:
  fixes P :: "'o UniqueObjectIdPool"
  assumes "getContinuousRange P n = (res, msgs, P')"
  shows "((\<exists>f\<in>set (free P). n \<le> rlength (ranges P ! f)) \<longrightarrow>
            (\<exists>k. isBestFit (freeLengths P) n k \<and> res = Some (free P ! k) \<and>
                 P' = P\<lparr>free := splice1 (free P) k\<rparr>)) \<and>
         (ranges P' \<noteq> ranges P \<or> unusedRangeStart P' \<noteq> unusedRangeStart P \<longrightarrow>
            (\<forall>f\<in>set (free P). rlength (ranges P ! f) < n) \<and> free P' = free P)"
proof (cases "\<exists>f\<in>set (free P). n \<le> rlength (ranges P ! f)")
  case True
  from getContinuousRange_hit [OF True] obtain k where
    k: "isBestFit (freeLengths P) n k"
    and g: "getContinuousRange P n = (Some (free P ! k), [], P\<lparr>free := splice1 (free P) k\<rparr>)"
    by blast
  from assms g have "res = Some (free P ! k)" "P' = P\<lparr>free := splice1 (free P) k\<rparr>"
    by simp_all
  with k True show ?thesis by auto
next
  case False
  then have miss: "\<forall>f\<in>set (free P). rlength (ranges P ! f) < n" by auto
  from assms getContinuousRange_miss [OF miss] have "free P' = free P"
    by (auto split: if_splits)
  with miss False show ?thesis by blast
qed

theorem C2_best_fit_witness:
  "freeLengths pool_5_10_3 = [5, 10, 3] \<and>
   getContinuousRange pool_5_10_3 4 = (Some 0, [], pool_5_10_3\<lparr>free := [1, 2]\<rparr>) \<and>
   rlength (ranges pool_5_10_3 ! 0) = 5 \<and>
   (\<exists>k. isBestFit (freeLengths pool_5_10_3) 4 k \<and> free pool_5_10_3 ! k = 0)"
proof -
  have run: "getContinuousRange pool_5_10_3 4 = (Some 0, [], pool_5_10_3\<lparr>free := [1, 2]\<rparr>)"
    by (simp add: getContinuousRange_def pool_5_10_3_def rlength_def splice1_def)
  have fit: "\<exists>f\<in>set (free pool_5_10_3). 4 \<le> rlength (ranges pool_5_10_3 ! f)"
    by (simp add: pool_5_10_3_def rlength_def)
  have lens: "freeLengths pool_5_10_3 = [5, 10, 3]"
    and len0: "rlength (ranges pool_5_10_3 ! 0) = 5"
    by (simp_all add: freeLengths_def pool_5_10_3_def rlength_def)
  from C2_best_fit [OF run] fit
  have best: "\<exists>k. isBestFit (freeLengths pool_5_10_3) 4 k \<and> free pool_5_10_3 ! k = 0"
    by auto
  from lens run len0 best show ?thesis by (intro conjI)
qed

text \<open>
  Claim C8. When no range of the free list has a length of at least \<open>n\<close>: if the high-water
  mark plus \<open>n\<close> exceeds 65536, \<open>getContinuousRange\<close> logs a message and returns \<open>null\<close>, and
  the pool (high-water mark and free list included) is unchanged; otherwise it returns a
  new range from the high-water mark to the high-water mark plus \<open>n\<close> and advances the
  high-water mark by \<open>n\<close>. The function has no failing branch.
\<close>

theorem C8_exhaustion:
  fixes P :: "'o UniqueObjectIdPool"
  assumes "\<forall>f\<in>set (free P). rlength (ranges P ! f) < n"
  shows "(unusedRangeStart P + n > 65536 \<longrightarrow>
            getContinuousRange P n = (None, [''not enough free object ids.''], P)) \<and>
         (unusedRangeStart P + n \<le> 65536 \<longrightarrow>
            getContinuousRange P n =
              (Some (length (ranges P)), [],
               P\<lparr>unusedRangeStart := unusedRangeStart P + n,
                 ranges := ranges P @
                   [\<lparr>id_start = unusedRangeStart P, id_next = unusedRangeStart P,
                     id_end = unusedRangeStart P + n\<rparr>]\<rparr>))"
  using getContinuousRange_miss [OF assms]
  by simp

theorem C8_exhaustion_witness:
  "getContinuousRange pool_near_full 10
     = (None, [''not enough free object ids.''], pool_near_full) \<and>
   getContinuousRange pool_near_full 6
     = (Some 2, [],
        pool_near_full\<lparr>unusedRangeStart := 65536,
          ranges := [\<lparr>id_start = 0, id_next = 0, id_end = 3\<rparr>,
                     \<lparr>id_start = 3, id_next = 3, id_end = 65530\<rparr>,
                     \<lparr>id_start = 65530, id_next = 65530, id_end = 65536\<rparr>]\<rparr>)"
proof -
  have miss10: "\<forall>f\<in>set (free pool_near_full). rlength (ranges pool_near_full ! f) < 10"
    and miss6: "\<forall>f\<in>set (free pool_near_full). rlength (ranges pool_near_full ! f) < 6"
    by (simp_all add: pool_near_full_def rlength_def)
  have a: "getContinuousRange pool_near_full 10
     = (None, [''not enough free object ids.''], pool_near_full)"
    using C8_exhaustion [OF miss10] by (simp add: pool_near_full_def)
  have b: "getContinuousRange pool_near_full 6
     = (Some 2, [],
        pool_near_full\<lparr>unusedRangeStart := 65536,
          ranges := [\<lparr>id_start = 0, id_next = 0, id_end = 3\<rparr>,
                     \<lparr>id_start = 3, id_next = 3, id_end = 65530\<rparr>,
                     \<lparr>id_start = 65530, id_next = 65530, id_end = 65536\<rparr>]\<rparr>)"
    using C8_exhaustion [OF miss6] by (simp add: pool_near_full_def)
  from a b show ?thesis by blast
qed

subsection \<open>Id pool: assigning identifiers\<close>

lemma recycleLoop_eq:
  "recycleLoop objs i n = (\<lambda>k. if i \<le> k \<and> k < n then None else objs k)"
proof (induction objs i n rule: recycleLoop.induct)
  case (1 objs i n)
  show ?case
  proof (cases "i < n")
    case True
    have "recycleLoop objs i n = recycleLoop (objs(i := None)) (i + 1) n"
      using True by (subst recycleLoop.simps) simp
    also have "\<dots> = (\<lambda>k. if i + 1 \<le> k \<and> k < n then None else (objs(i := None)) k)"
      using True by (rule "1.IH")
    also have "\<dots> = (\<lambda>k. if i \<le> k \<and> k < n then None else objs k)"
      using True by (auto simp: fun_eq_iff)
    finally show ?thesis .
  next
    case False
    then show ?thesis
      by (subst recycleLoop.simps) (auto simp: fun_eq_iff)
  qed
qed

lemma nextId_simps:
  fixes P :: "'o UniqueObjectIdPool"
  shows "fst (nextId P r obj) = id_next (ranges P ! r)"
    and "objects (snd (nextId P r obj)) = (objects P)(id_next (ranges P ! r) \<mapsto> obj)"
    and "ranges (snd (nextId P r obj))
           = (ranges P)[r := (ranges P ! r)\<lparr>id_next := id_next (ranges P ! r) + 1\<rparr>]"
    and "free (snd (nextId P r obj)) = free P"
    and "unusedRangeStart (snd (nextId P r obj)) = unusedRangeStart P"
  by (simp_all add: nextId_def Let_def)

lemma nextIds_Cons:
  "nextIds P r (obj # os) =
     (id_next (ranges P ! r) # fst (nextIds (snd (nextId P r obj)) r os),
      snd (nextIds (snd (nextId P r obj)) r os))"
  by (simp add: split_beta nextId_simps)

lemma nextIds_frame:
  fixes P :: "'o UniqueObjectIdPool"
  shows "free (snd (nextIds P r os)) = free P \<and>
         unusedRangeStart (snd (nextIds P r os)) = unusedRangeStart P \<and>
         length (ranges (snd (nextIds P r os))) = length (ranges P)"
proof (induction os arbitrary: P)
  case Nil
  show ?case by simp
next
  case (Cons obj os)
  show ?case
    unfolding nextIds_Cons snd_conv
    using Cons.IH [of "snd (nextId P r obj)"] by (simp add: nextId_simps)
qed

lemma nextIds_ranges:
  fixes P :: "'o UniqueObjectIdPool"
  assumes "r < length (ranges P)"
  shows "ranges (snd (nextIds P r os)) =
           (ranges P)[r := (ranges P ! r)\<lparr>id_next := id_next (ranges P ! r) + int (length os)\<rparr>]"
  using assms
proof (induction os arbitrary: P)
  case Nil
  show ?case by (simp add: list_update_same_conv)
next
  case (Cons obj os)
  have r1: "r < length (ranges (snd (nextId P r obj)))"
    using Cons.prems by (simp add: nextId_simps)
  show ?case
    unfolding nextIds_Cons snd_conv Cons.IH [OF r1]
    using Cons.prems by (simp add: nextId_simps add.assoc)
qed

lemma nextIds_ids:
  fixes P :: "'o UniqueObjectIdPool"
  assumes "r < length (ranges P)"
  shows "fst (nextIds P r os) = map (\<lambda>k. id_next (ranges P ! r) + int k) [0..<length os]"
  using assms
proof (induction os arbitrary: P)
  case Nil
  show ?case by simp
next
  case (Cons obj os)
  have r1: "r < length (ranges (snd (nextId P r obj)))"
    using Cons.prems by (simp add: nextId_simps)
  have nx1: "id_next (ranges (snd (nextId P r obj)) ! r) = id_next (ranges P ! r) + 1"
    using Cons.prems by (simp add: nextId_simps)
  have m: "map (\<lambda>k. id_next (ranges P ! r) + int k) [0..<length (obj # os)]
           = id_next (ranges P ! r) # map (\<lambda>k. id_next (ranges P ! r) + 1 + int k) [0..<length os]"
    by (simp add: upt_rec [of 0] map_Suc_upt [symmetric] add.assoc del: upt_Suc)
  show ?case
    unfolding nextIds_Cons fst_conv Cons.IH [OF r1] nx1 m ..
qed

lemma nextIds_objects_out:
  fixes P :: "'o UniqueObjectIdPool"
  assumes "r < length (ranges P)"
    and "i < id_next (ranges P ! r) \<or> id_next (ranges P ! r) + int (length os) \<le> i"
  shows "objects (snd (nextIds P r os)) i = objects P i"
  using assms
proof (induction os arbitrary: P)
  case Nil
  show ?case by simp
next
  case (Cons obj os)
  have r1: "r < length (ranges (snd (nextId P r obj)))"
    using Cons.prems by (simp add: nextId_simps)
  have nx1: "id_next (ranges (snd (nextId P r obj)) ! r) = id_next (ranges P ! r) + 1"
    using Cons.prems by (simp add: nextId_simps)
  have out: "i < id_next (ranges (snd (nextId P r obj)) ! r) \<or>
             id_next (ranges (snd (nextId P r obj)) ! r) + int (length os) \<le> i"
    unfolding nx1 using Cons.prems(2) by auto
  have "objects (snd (nextIds P r (obj # os))) i = objects (snd (nextId P r obj)) i"
    unfolding nextIds_Cons snd_conv by (rule Cons.IH [OF r1 out])
  also have "\<dots> = objects P i"
    using Cons.prems(2) by (auto simp: nextId_simps)
  finally show ?case .
qed

lemma nextIds_objects_in:
  fixes P :: "'o UniqueObjectIdPool"
  assumes "r < length (ranges P)" and "k < length os"
  shows "objects (snd (nextIds P r os)) (id_next (ranges P ! r) + int k) = Some (os ! k)"
  using assms
proof (induction os arbitrary: P k)
  case Nil
  then show ?case by simp
next
  case (Cons obj os)
  let ?P1 = "snd (nextId P r obj)"
  have r1: "r < length (ranges ?P1)"
    using Cons.prems by (simp add: nextId_simps)
  have nx1: "id_next (ranges ?P1 ! r) = id_next (ranges P ! r) + 1"
    using Cons.prems by (simp add: nextId_simps)
  show ?case
  proof (cases k)
    case 0
    have "objects (snd (nextIds ?P1 r os)) (id_next (ranges P ! r)) = objects ?P1 (id_next (ranges P ! r))"
      by (rule nextIds_objects_out [OF r1]) (simp add: nx1)
    then show ?thesis
      unfolding nextIds_Cons snd_conv using 0 by (simp add: nextId_simps)
  next
    case (Suc j)
    with Cons.prems have j: "j < length os" by simp
    have "objects (snd (nextIds ?P1 r os)) (id_next (ranges ?P1 ! r) + int j) = Some (os ! j)"
      by (rule Cons.IH [OF r1 j])
    moreover have "id_next (ranges ?P1 ! r) + int j = id_next (ranges P ! r) + int k"
      unfolding nx1 using Suc by simp
    ultimately show ?thesis
      unfolding nextIds_Cons snd_conv using Suc by simp
  qed
qed

text \<open>
  The condition \<open>freeListOk\<close> holds in a new pool and is kept by every
  \<open>getContinuousRange\<close>, by every \<open>recycle\<close> of a range of the pool, and by \<open>nextId\<close> on a
  range that is not on the free list.
\<close>

lemma freeListOk_new: "freeListOk UniqueObjectIdPool_new"
  by (simp add: freeListOk_def UniqueObjectIdPool_new_def)

lemma set_splice1: "set (splice1 xs k) \<subseteq> set xs"
  unfolding splice1_def using set_take_subset [of k xs] set_drop_subset [of "Suc k" xs]
  by auto

lemma freeListOk_acquire:
  assumes ok: "freeListOk P" and g: "getContinuousRange P n = (res, msgs, P')"
  shows "freeListOk P'"
proof -
  from getContinuousRange_cases [OF g]
  consider (hit) k where "P' = P\<lparr>free := splice1 (free P) k\<rparr>" | (null) "P' = P"
    | (new) "P' = P\<lparr>unusedRangeStart := unusedRangeStart P + n,
                ranges := ranges P @
                  [\<lparr>id_start = unusedRangeStart P, id_next = unusedRangeStart P,
                    id_end = unusedRangeStart P + n\<rparr>]\<rparr>"
    by blast
  then show ?thesis
  proof cases
    case hit
    with ok set_splice1 [of "free P" k] show ?thesis
      by (auto simp: freeListOk_def)
  next
    case null
    with ok show ?thesis by simp
  next
    case new
    with ok show ?thesis
      by (auto simp: freeListOk_def nth_append)
  qed
qed

lemma freeListOk_nextId:
  assumes "freeListOk P" and "r \<notin> set (free P)"
  shows "freeListOk (snd (nextId P r obj))"
  unfolding freeListOk_def
proof
  fix f assume f: "f \<in> set (free (snd (nextId P r obj)))"
  then have fP: "f \<in> set (free P)" by (simp add: nextId_simps)
  with assms(2) have ne: "r \<noteq> f" by auto
  from fP assms(1) have "f < length (ranges P)"
    and "id_next (ranges P ! f) = id_start (ranges P ! f)"
    by (auto simp: freeListOk_def)
  with ne show "f < length (ranges (snd (nextId P r obj))) \<and>
      id_next (ranges (snd (nextId P r obj)) ! f) = id_start (ranges (snd (nextId P r obj)) ! f)"
    by (simp add: nextId_simps)
qed

lemma freeListOk_recycle:
  assumes "freeListOk P" and "r < length (ranges P)"
  shows "freeListOk (recycle P r)"
  using assms by (auto simp: freeListOk_def recycle_def Let_def nth_list_update)

lemma properUse_freeListOk: "properUse P \<Longrightarrow> freeListOk P"
proof (induction rule: properUse.induct)
  case fresh
  show ?case by (rule freeListOk_new)
next
  case (acquire P n res msgs P')
  then show ?case by (blast intro: freeListOk_acquire)
next
  case (assign P r obj i P')
  from freeListOk_nextId [OF assign.IH assign.hyps(3), of obj] assign.hyps(4)
  show ?case by simp
next
  case (release P r)
  then show ?case by (blast intro: freeListOk_recycle)
qed

lemma acquire_fresh_cursor:
  fixes P :: "'o UniqueObjectIdPool"
  assumes ok: "freeListOk P" and n: "n \<le> 65536 - unusedRangeStart P"
  shows "\<exists>r P1. getContinuousRange P n = (Some r, [], P1) \<and> r < length (ranges P1) \<and>
           id_next (ranges P1 ! r) = id_start (ranges P1 ! r) \<and> n \<le> rlength (ranges P1 ! r)"
proof (cases "\<exists>f\<in>set (free P). n \<le> rlength (ranges P ! f)")
  case True
  from getContinuousRange_hit [OF True] obtain k where
    k: "isBestFit (freeLengths P) n k"
    and g: "getContinuousRange P n = (Some (free P ! k), [], P\<lparr>free := splice1 (free P) k\<rparr>)"
    by blast
  from k have kl: "k < length (free P)" and fit: "n \<le> rlength (ranges P ! (free P ! k))"
    by (auto simp: isBestFit_def freeLengths_def)
  from kl have "free P ! k \<in> set (free P)" by simp
  with ok have "free P ! k < length (ranges P)"
    and "id_next (ranges P ! (free P ! k)) = id_start (ranges P ! (free P ! k))"
    by (auto simp: freeListOk_def)
  with g fit show ?thesis by simp
next
  case False
  then have miss: "\<forall>f\<in>set (free P). rlength (ranges P ! f) < n" by auto
  show ?thesis
    using getContinuousRange_miss [OF miss] n
    by (simp add: rlength_def)
qed

lemma nextIds_from_start:
  fixes P :: "'o UniqueObjectIdPool"
  assumes r: "r < length (ranges P)"
    and cur: "id_next (ranges P ! r) = id_start (ranges P ! r)"
    and len: "int (length os) \<le> rlength (ranges P ! r)"
  shows "length (fst (nextIds P r os)) = length os \<and>
         distinct (fst (nextIds P r os)) \<and>
         (\<forall>i\<in>set (fst (nextIds P r os)).
             id_start (ranges P ! r) \<le> i \<and> i < id_end (ranges P ! r)) \<and>
         (\<forall>k<length os.
             objectForId (snd (nextIds P r os)) (fst (nextIds P r os) ! k) = Some (os ! k))"
proof -
  have ids: "fst (nextIds P r os) = map (\<lambda>k. id_start (ranges P ! r) + int k) [0..<length os]"
    using nextIds_ids [OF r, of os] cur by simp
  have d: "distinct (map (\<lambda>k. id_start (ranges P ! r) + int k) [0..<length os])"
    by (simp add: distinct_map inj_on_def)
  have inr: "\<forall>i\<in>set (fst (nextIds P r os)).
      id_start (ranges P ! r) \<le> i \<and> i < id_end (ranges P ! r)"
    unfolding ids using len by (auto simp: rlength_def)
  have obj: "\<forall>k<length os.
      objectForId (snd (nextIds P r os)) (fst (nextIds P r os) ! k) = Some (os ! k)"
    unfolding ids objectForId_def
    using nextIds_objects_in [OF r, of _ os] cur by simp
  from ids d inr obj show ?thesis by simp
qed

lemma pool_double_release_steps:
  "snd (snd (getContinuousRange (UniqueObjectIdPool_new :: string UniqueObjectIdPool) 2))
     = \<lparr>objects = Map.empty, unusedRangeStart = 2, free = [],
        ranges = [\<lparr>id_start = 0, id_next = 0, id_end = 2\<rparr>]\<rparr>"
  "snd (snd (getContinuousRange
       (recycle (recycle
          (snd (snd (getContinuousRange (UniqueObjectIdPool_new :: string UniqueObjectIdPool) 2)))
          0) 0) 2))
     = \<lparr>objects = Map.empty, unusedRangeStart = 2, free = [0],
        ranges = [\<lparr>id_start = 0, id_next = 0, id_end = 2\<rparr>]\<rparr>"
proof -
  let ?P1 = "snd (snd (getContinuousRange (UniqueObjectIdPool_new :: string UniqueObjectIdPool) 2))"
  show p1: "?P1 = \<lparr>objects = Map.empty, unusedRangeStart = 2, free = [],
                    ranges = [\<lparr>id_start = 0, id_next = 0, id_end = 2\<rparr>]\<rparr>"
    by (simp add: getContinuousRange_new)
  have l: "recycleLoop (Map.empty :: int \<rightharpoonup> string) 0 0 = Map.empty"
    by (simp add: recycleLoop_eq)
  have p3: "recycle (recycle ?P1 0) 0 =
              \<lparr>objects = Map.empty, unusedRangeStart = 2, free = [0, 0],
               ranges = [\<lparr>id_start = 0, id_next = 0, id_end = 2\<rparr>]\<rparr>"
    by (simp add: p1 recycle_def l)
  show "snd (snd (getContinuousRange (recycle (recycle ?P1 0) 0) 2)) =
              \<lparr>objects = Map.empty, unusedRangeStart = 2, free = [0],
               ranges = [\<lparr>id_start = 0, id_next = 0, id_end = 2\<rparr>]\<rparr>"
    unfolding p3 by (simp add: getContinuousRange_def rlength_def splice1_def)
qed

lemma pool_double_release_eq:
  "pool_double_release =
     \<lparr>objects = [0 \<mapsto> ''a'', 1 \<mapsto> ''b''], unusedRangeStart = 2, free = [0],
      ranges = [\<lparr>id_start = 0, id_next = 2, id_end = 2\<rparr>]\<rparr>"
  unfolding pool_double_release_def pool_double_release_steps(2) by (simp add: nextId_def)

lemma pool_double_release_reachable:
  "reachable pool_double_release assigned_double_release"
proof -
  let ?P0 = "UniqueObjectIdPool_new :: string UniqueObjectIdPool"
  let ?P1 = "snd (snd (getContinuousRange ?P0 2))"
  let ?P3 = "recycle (recycle ?P1 0) 0"
  let ?P4 = "snd (snd (getContinuousRange ?P3 2))"
  let ?P5 = "snd (nextId ?P4 0 ''a'')"
  have r1: "reachable ?P1 (\<lambda>r. {})"
    by (rule reachable.acquire [OF reachable.fresh, of 2 "fst (getContinuousRange ?P0 2)"
          "fst (snd (getContinuousRange ?P0 2))"]) simp
  have l1: "0 < length (ranges ?P1)"
    by (simp add: getContinuousRange_new)
  have e: "(\<lambda>r::nat. {} :: int set)(0 := {}) = (\<lambda>r. {})"
    by (simp add: fun_eq_iff)
  from reachable.release [OF r1 l1] have r2: "reachable (recycle ?P1 0) (\<lambda>r. {})"
    by (simp only: e)
  have l2: "0 < length (ranges (recycle ?P1 0))"
    using l1 by (simp add: recycle_def Let_def)
  from reachable.release [OF r2 l2] have r3: "reachable ?P3 (\<lambda>r. {})"
    by (simp only: e)
  have r4: "reachable ?P4 (\<lambda>r. {})"
    by (rule reachable.acquire [OF r3, of 2 "fst (getContinuousRange ?P3 2)"
          "fst (snd (getContinuousRange ?P3 2))"]) simp
  have p4: "?P4 = \<lparr>objects = Map.empty, unusedRangeStart = 2, free = [0],
               ranges = [\<lparr>id_start = 0, id_next = 0, id_end = 2\<rparr>]\<rparr>"
    by (rule pool_double_release_steps(2))
  have l4: "0 < length (ranges ?P4)"
    by (simp add: p4)
  have n5: "nextId ?P4 0 ''a'' = (0, ?P5)"
    by (simp add: p4 nextId_def)
  from reachable.assign [OF r4 l4 n5] have r5: "reachable ?P5 ((\<lambda>r. {})(0 := {0}))"
    by simp
  have l5: "0 < length (ranges ?P5)"
    by (simp add: p4 nextId_def)
  have n6: "nextId ?P5 0 ''b'' = (1, pool_double_release)"
    unfolding pool_double_release_def p4 by (simp add: nextId_def)
  from reachable.assign [OF r5 l5 n6]
  show ?thesis
    by (simp add: assigned_double_release_def)
qed

text \<open>
  Claim C3, as stated, fails after a double release. In the pool of the history above the
  request for two identifiers is within the budget and succeeds, from the free list; it
  returns the range from 0 to 2 whose cursor is already at 2, and the two \<open>nextId\<close> calls
  that follow return 2 and 3, outside the range.
\<close>

theorem C3_acquire_then_nextIds_counterexample:
  "reachable pool_double_release assigned_double_release \<and>
   int (length [''c'', ''d'']) \<le> 65536 - unusedRangeStart pool_double_release \<and>
   getContinuousRange pool_double_release (int (length [''c'', ''d'']))
     = (Some 0, [], pool_double_release\<lparr>free := []\<rparr>) \<and>
   id_start (ranges (pool_double_release\<lparr>free := []\<rparr>) ! 0) = 0 \<and>
   id_end (ranges (pool_double_release\<lparr>free := []\<rparr>) ! 0) = 2 \<and>
   fst (nextIds (pool_double_release\<lparr>free := []\<rparr>) 0 [''c'', ''d'']) = [2, 3]"
proof -
  have b: "int (length [''c'', ''d'']) \<le> 65536 - unusedRangeStart pool_double_release"
    and c: "getContinuousRange pool_double_release (int (length [''c'', ''d'']))
              = (Some 0, [], pool_double_release\<lparr>free := []\<rparr>)"
    and d: "id_start (ranges (pool_double_release\<lparr>free := []\<rparr>) ! 0) = 0"
    and e: "id_end (ranges (pool_double_release\<lparr>free := []\<rparr>) ! 0) = 2"
    and f: "fst (nextIds (pool_double_release\<lparr>free := []\<rparr>) 0 [''c'', ''d'']) = [2, 3]"
    by (simp_all add: pool_double_release_eq getContinuousRange_def rlength_def splice1_def
          nextId_def)
  from pool_double_release_reachable b c d e f show ?thesis by (intro conjI)
qed

text \<open>
  Claim C3, amended. In a pool whose free list holds only ranges with the cursor at their
  start (\<open>freeListOk\<close>, which correct use keeps), for every \<open>n\<close> of at most 65536 minus the
  high-water mark, \<open>getContinuousRange n\<close> succeeds, and \<open>n\<close> calls of \<open>nextId\<close> on the
  returned range right after it return \<open>n\<close> pairwise distinct identifiers, each from the
  start of that range and below its end, and the table maps each of them to the object
  passed to the call that returned it.
\<close>

theorem C3_acquire_then_nextIds:
  fixes P :: "'o UniqueObjectIdPool"
  assumes "freeListOk P" and "int (length os) \<le> 65536 - unusedRangeStart P"
  shows "\<exists>r P1. getContinuousRange P (int (length os)) = (Some r, [], P1) \<and>
           length (fst (nextIds P1 r os)) = length os \<and>
           distinct (fst (nextIds P1 r os)) \<and>
           (\<forall>i\<in>set (fst (nextIds P1 r os)).
               id_start (ranges P1 ! r) \<le> i \<and> i < id_end (ranges P1 ! r)) \<and>
           (\<forall>k<length os.
               objectForId (snd (nextIds P1 r os)) (fst (nextIds P1 r os) ! k) = Some (os ! k))"
proof -
  from acquire_fresh_cursor [OF assms] obtain r P1 where
    g: "getContinuousRange P (int (length os)) = (Some r, [], P1)"
    and r: "r < length (ranges P1)"
    and cur: "id_next (ranges P1 ! r) = id_start (ranges P1 ! r)"
    and len: "int (length os) \<le> rlength (ranges P1 ! r)"
    by blast
  from g nextIds_from_start [OF r cur len] show ?thesis by blast
qed

theorem C3_acquire_then_nextIds_witness:
  "freeListOk pool_5_10_3 \<and>
   getContinuousRange pool_5_10_3 4 = (Some 0, [], pool_5_10_3\<lparr>free := [1, 2]\<rparr>) \<and>
   fst (nextIds (pool_5_10_3\<lparr>free := [1, 2]\<rparr>) 0 [''a'', ''b'', ''c'', ''d'']) = [0, 1, 2, 3] \<and>
   (\<exists>r P1. getContinuousRange pool_5_10_3 (int (length [''a'', ''b'', ''c'', ''d'']))
              = (Some r, [], P1) \<and>
      length (fst (nextIds P1 r [''a'', ''b'', ''c'', ''d''])) = length [''a'', ''b'', ''c'', ''d''] \<and>
      distinct (fst (nextIds P1 r [''a'', ''b'', ''c'', ''d''])) \<and>
      (\<forall>i\<in>set (fst (nextIds P1 r [''a'', ''b'', ''c'', ''d''])).
          id_start (ranges P1 ! r) \<le> i \<and> i < id_end (ranges P1 ! r)) \<and>
      (\<forall>k<length [''a'', ''b'', ''c'', ''d''].
          objectForId (snd (nextIds P1 r [''a'', ''b'', ''c'', ''d'']))
            (fst (nextIds P1 r [''a'', ''b'', ''c'', ''d'']) ! k)
          = Some ([''a'', ''b'', ''c'', ''d''] ! k)))"
proof -
  have ok: "freeListOk pool_5_10_3"
    by (simp add: freeListOk_def pool_5_10_3_def)
  have n: "int (length [''a'', ''b'', ''c'', ''d'']) \<le> 65536 - unusedRangeStart pool_5_10_3"
    by (simp add: pool_5_10_3_def)
  have run: "getContinuousRange pool_5_10_3 4 = (Some 0, [], pool_5_10_3\<lparr>free := [1, 2]\<rparr>)"
    by (simp add: getContinuousRange_def pool_5_10_3_def rlength_def splice1_def)
  have ids: "fst (nextIds (pool_5_10_3\<lparr>free := [1, 2]\<rparr>) 0 [''a'', ''b'', ''c'', ''d''])
             = [0, 1, 2, 3]"
    by (simp add: nextId_def pool_5_10_3_def Let_def)
  from ok run ids C3_acquire_then_nextIds [OF ok n] show ?thesis
    by (intro conjI)
qed

text \<open>
  Claim C10. \<open>nextId\<close> does not compare the cursor with the end of the range. On a range
  whose cursor is at its start, call number \<open>k + 1\<close> returns the start plus \<open>k\<close> for every
  \<open>k\<close>; from the call after the last identifier of the range on, the identifiers returned
  are the end of the range, the end plus one and so on, outside the range, and the table
  maps each of them to the object passed, whatever it held there before.
\<close>

theorem C10_nextId_unbounded:
  fixes P :: "'o UniqueObjectIdPool"
  assumes r: "r < length (ranges P)"
    and cur: "id_next (ranges P ! r) = id_start (ranges P ! r)"
    and k: "k < length os"
  shows "fst (nextIds P r os) ! k = id_start (ranges P ! r) + int k \<and>
         objectForId (snd (nextIds P r os)) (fst (nextIds P r os) ! k) = Some (os ! k) \<and>
         (rlength (ranges P ! r) \<le> int k \<longrightarrow>
            fst (nextIds P r os) ! k = id_end (ranges P ! r) + (int k - rlength (ranges P ! r)) \<and>
            id_end (ranges P ! r) \<le> fst (nextIds P r os) ! k)"
proof -
  have ids: "fst (nextIds P r os) ! k = id_start (ranges P ! r) + int k"
    using nextIds_ids [OF r, of os] cur k by simp
  have obj: "objectForId (snd (nextIds P r os)) (id_start (ranges P ! r) + int k) = Some (os ! k)"
    unfolding objectForId_def using nextIds_objects_in [OF r k] cur by simp
  from ids obj show ?thesis by (simp add: rlength_def)
qed

theorem C10_nextId_unbounded_witness:
  "objectForId pool_two_ranges 2 = Some ''x'' \<and>
   fst (nextIds pool_two_ranges 0 [''a'', ''b'', ''c'']) ! 2 = id_end (ranges pool_two_ranges ! 0) \<and>
   fst (nextIds pool_two_ranges 0 [''a'', ''b'', ''c'']) ! 2 = 2 \<and>
   objectForId (snd (nextIds pool_two_ranges 0 [''a'', ''b'', ''c''])) 2 = Some ''c''"
proof -
  have r: "0 < length (ranges pool_two_ranges)"
    and cur: "id_next (ranges pool_two_ranges ! 0) = id_start (ranges pool_two_ranges ! 0)"
    and k: "2 < length [''a'', ''b'', ''c'']"
    and over: "rlength (ranges pool_two_ranges ! 0) \<le> int 2"
    and e: "id_end (ranges pool_two_ranges ! 0) = 2" "id_start (ranges pool_two_ranges ! 0) = 0"
    and before: "objectForId pool_two_ranges 2 = Some ''x''"
    by (simp_all add: pool_two_ranges_def rlength_def objectForId_def)
  note h = C10_nextId_unbounded [OF r cur k]
  from h have i: "fst (nextIds pool_two_ranges 0 [''a'', ''b'', ''c'']) ! 2 = 2"
    by (simp del: nextIds.simps add: e)
  from h i have o: "objectForId (snd (nextIds pool_two_ranges 0 [''a'', ''b'', ''c''])) 2 = Some ''c''"
    by (simp del: nextIds.simps)
  from before i o e show ?thesis by (simp del: nextIds.simps)
qed

subsection \<open>Id pool: release and lookup\<close>

lemma poolInvI:
  assumes "\<And>r. A r = (if r < length (ranges P)
                 then {id_start (ranges P ! r) ..< id_next (ranges P ! r)} else {})"
    and "\<And>r. r < length (ranges P) \<Longrightarrow> id_start (ranges P ! r) \<le> id_next (ranges P ! r)"
    and "\<And>i. objects P i \<noteq> None \<Longrightarrow> \<exists>r. i \<in> A r"
  shows "poolInv P A"
  unfolding poolInv_def using assms by blast

lemma poolInv_window:
  "poolInv P A \<Longrightarrow> A r = (if r < length (ranges P)
                 then {id_start (ranges P ! r) ..< id_next (ranges P ! r)} else {})"
  unfolding poolInv_def by blast

lemma poolInv_cursor:
  "poolInv P A \<Longrightarrow> r < length (ranges P) \<Longrightarrow> id_start (ranges P ! r) \<le> id_next (ranges P ! r)"
  unfolding poolInv_def by blast

lemma poolInv_objects:
  "poolInv P A \<Longrightarrow> objects P i \<noteq> None \<Longrightarrow> \<exists>r. i \<in> A r"
  unfolding poolInv_def by blast

lemma poolInv_fresh: "poolInv UniqueObjectIdPool_new (\<lambda>r. {})"
  by (simp add: poolInv_def UniqueObjectIdPool_new_def)

lemma poolInv_acquire:
  assumes "poolInv P A" and "getContinuousRange P n = (res, msgs, P')"
  shows "poolInv P' A"
proof -
  from getContinuousRange_cases [OF assms(2)]
  consider (hit) k where "P' = P\<lparr>free := splice1 (free P) k\<rparr>" | (null) "P' = P"
    | (new) "P' = P\<lparr>unusedRangeStart := unusedRangeStart P + n,
                ranges := ranges P @
                  [\<lparr>id_start = unusedRangeStart P, id_next = unusedRangeStart P,
                    id_end = unusedRangeStart P + n\<rparr>]\<rparr>"
    by blast
  then show ?thesis
  proof cases
    case hit
    show ?thesis
    proof (rule poolInvI)
      fix r show "A r = (if r < length (ranges P')
                 then {id_start (ranges P' ! r) ..< id_next (ranges P' ! r)} else {})"
        using poolInv_window [OF assms(1), of r] hit by simp
    next
      fix r assume "r < length (ranges P')"
      then show "id_start (ranges P' ! r) \<le> id_next (ranges P' ! r)"
        using poolInv_cursor [OF assms(1), of r] hit by simp
    next
      fix i assume "objects P' i \<noteq> None"
      then show "\<exists>r. i \<in> A r"
        using poolInv_objects [OF assms(1), of i] hit by simp
    qed
  next
    case null
    with assms(1) show ?thesis by simp
  next
    case new
    show ?thesis
    proof (rule poolInvI)
      fix r show "A r = (if r < length (ranges P')
                 then {id_start (ranges P' ! r) ..< id_next (ranges P' ! r)} else {})"
        using poolInv_window [OF assms(1), of r] new by (auto simp: nth_append)
    next
      fix r assume "r < length (ranges P')"
      then show "id_start (ranges P' ! r) \<le> id_next (ranges P' ! r)"
        using poolInv_cursor [OF assms(1), of r] new by (auto simp: nth_append)
    next
      fix i assume "objects P' i \<noteq> None"
      then show "\<exists>r. i \<in> A r"
        using poolInv_objects [OF assms(1), of i] new by simp
    qed
  qed
qed

lemma poolInv_assign:
  assumes inv: "poolInv P A" and r: "r < length (ranges P)" and n: "nextId P r obj = (i, P')"
  shows "poolInv P' (A(r := insert i (A r)))"
proof -
  from n have i: "i = id_next (ranges P ! r)"
    and rg: "ranges P' = (ranges P)[r := (ranges P ! r)\<lparr>id_next := i + 1\<rparr>]"
    and ob: "objects P' = (objects P)(i \<mapsto> obj)"
    by (auto simp: nextId_def Let_def)
  from poolInv_cursor [OF inv r] have le: "id_start (ranges P ! r) \<le> i"
    unfolding i .
  from poolInv_window [OF inv, of r] r have Ar: "A r = {id_start (ranges P ! r) ..< i}"
    unfolding i by simp
  have ins: "insert i {id_start (ranges P ! r) ..< i} = {id_start (ranges P ! r) ..< i + 1}"
    using le by auto
  have a: "\<forall>q. (A(r := insert i (A r))) q =
             (if q < length (ranges P')
              then {id_start (ranges P' ! q) ..< id_next (ranges P' ! q)} else {})"
  proof
    fix q show "(A(r := insert i (A r))) q =
             (if q < length (ranges P')
              then {id_start (ranges P' ! q) ..< id_next (ranges P' ! q)} else {})"
      using poolInv_window [OF inv, of q] r by (simp add: rg Ar ins nth_list_update)
  qed
  have b: "\<forall>q < length (ranges P'). id_start (ranges P' ! q) \<le> id_next (ranges P' ! q)"
  proof (intro allI impI)
    fix q assume "q < length (ranges P')"
    then show "id_start (ranges P' ! q) \<le> id_next (ranges P' ! q)"
      using poolInv_cursor [OF inv, of q] le r by (auto simp: rg nth_list_update)
  qed
  have c: "\<forall>j. objects P' j \<noteq> None \<longrightarrow> (\<exists>q. j \<in> (A(r := insert i (A r))) q)"
  proof (intro allI impI)
    fix j assume j: "objects P' j \<noteq> None"
    show "\<exists>q. j \<in> (A(r := insert i (A r))) q"
    proof (cases "j = i")
      case True
      then have "j \<in> (A(r := insert i (A r))) r" by simp
      then show ?thesis ..
    next
      case False
      with j ob have "objects P j \<noteq> None" by simp
      with poolInv_objects [OF inv] obtain q where "j \<in> A q" by blast
      then have "j \<in> (A(r := insert i (A r))) q" by auto
      then show ?thesis ..
    qed
  qed
  from a b c show ?thesis unfolding poolInv_def by (intro conjI)
qed

lemma poolInv_release:
  assumes inv: "poolInv P A" and r: "r < length (ranges P)"
  shows "poolInv (recycle P r) (A(r := {}))"
proof -
  let ?rg = "ranges P ! r"
  have rg: "ranges (recycle P r) = (ranges P)[r := ?rg\<lparr>id_next := id_start ?rg\<rparr>]"
    and ob: "objects (recycle P r) =
             (\<lambda>k. if id_start ?rg \<le> k \<and> k < id_next ?rg then None else objects P k)"
    by (simp_all add: recycle_def Let_def recycleLoop_eq)
  from poolInv_window [OF inv, of r] r have Ar: "A r = {id_start ?rg ..< id_next ?rg}"
    by simp
  have a: "\<forall>q. (A(r := {})) q =
             (if q < length (ranges (recycle P r))
              then {id_start (ranges (recycle P r) ! q) ..< id_next (ranges (recycle P r) ! q)}
              else {})"
  proof
    fix q show "(A(r := {})) q =
             (if q < length (ranges (recycle P r))
              then {id_start (ranges (recycle P r) ! q) ..< id_next (ranges (recycle P r) ! q)}
              else {})"
      using poolInv_window [OF inv, of q] r by (simp add: rg nth_list_update)
  qed
  have b: "\<forall>q < length (ranges (recycle P r)).
             id_start (ranges (recycle P r) ! q) \<le> id_next (ranges (recycle P r) ! q)"
  proof (intro allI impI)
    fix q assume "q < length (ranges (recycle P r))"
    then show "id_start (ranges (recycle P r) ! q) \<le> id_next (ranges (recycle P r) ! q)"
      using poolInv_cursor [OF inv, of q] r by (simp add: rg nth_list_update)
  qed
  have c: "\<forall>j. objects (recycle P r) j \<noteq> None \<longrightarrow> (\<exists>q. j \<in> (A(r := {})) q)"
  proof (intro allI impI)
    fix j assume j: "objects (recycle P r) j \<noteq> None"
    then have out: "j \<notin> A r" and "objects P j \<noteq> None"
      unfolding ob Ar by (auto split: if_splits)
    with poolInv_objects [OF inv] obtain q where q: "j \<in> A q" by blast
    with out have "q \<noteq> r" by auto
    with q have "j \<in> (A(r := {})) q" by simp
    then show "\<exists>q. j \<in> (A(r := {})) q" ..
  qed
  from a b c show ?thesis unfolding poolInv_def by (intro conjI)
qed

lemma reachable_poolInv: "reachable P A \<Longrightarrow> poolInv P A"
proof (induction rule: reachable.induct)
  case fresh
  show ?case by (rule poolInv_fresh)
next
  case (acquire P A n res msgs P')
  then show ?case by (blast intro: poolInv_acquire)
next
  case (assign P A r obj i P')
  then show ?case by (blast intro: poolInv_assign)
next
  case (release P A r)
  then show ?case by (blast intro: poolInv_release)
qed

text \<open>
  Claim C4. In every state a pool can reach: after \<open>recycle\<close> of a range, \<open>objectForId\<close>
  returns nothing for every identifier that range had assigned; \<open>objectForId\<close> returns
  nothing for an identifier that no range has assigned since its own last release (one
  never assigned, or assigned only by ranges released since), so never a stale object;
  and 0 is an ordinary identifier: the first range of a new pool starts at 0, its first
  \<open>nextId\<close> returns 0, and \<open>objectForId 0\<close> is then the object passed.
\<close>

theorem C4_release_clears_lookup:
  fixes P :: "'o UniqueObjectIdPool"
  assumes "reachable P A"
  shows "(r < length (ranges P) \<longrightarrow> (\<forall>i\<in>A r. objectForId (recycle P r) i = None)) \<and>
         ((\<forall>q. i \<notin> A q) \<longrightarrow> objectForId P i = None) \<and>
         (n \<le> 65536 \<longrightarrow>
            (\<exists>P1. getContinuousRange (UniqueObjectIdPool_new :: 'o UniqueObjectIdPool) n
                    = (Some 0, [], P1) \<and>
                  id_start (ranges P1 ! 0) = 0 \<and>
                  fst (nextId P1 0 obj) = 0 \<and>
                  objectForId (snd (nextId P1 0 obj)) 0 = Some obj))"
proof -
  from assms have inv: "poolInv P A" by (rule reachable_poolInv)
  have a: "r < length (ranges P) \<longrightarrow> (\<forall>i\<in>A r. objectForId (recycle P r) i = None)"
  proof (intro impI ballI)
    fix j assume r: "r < length (ranges P)" and j: "j \<in> A r"
    from poolInv_window [OF inv, of r] r j
    have "id_start (ranges P ! r) \<le> j \<and> j < id_next (ranges P ! r)" by simp
    then show "objectForId (recycle P r) j = None"
      by (simp add: objectForId_def recycle_def Let_def recycleLoop_eq)
  qed
  have b: "(\<forall>q. i \<notin> A q) \<longrightarrow> objectForId P i = None"
  proof
    assume none: "\<forall>q. i \<notin> A q"
    show "objectForId P i = None"
    proof (rule ccontr)
      assume "objectForId P i \<noteq> None"
      then have "objects P i \<noteq> None" by (simp add: objectForId_def)
      from poolInv_objects [OF inv this] none show False by blast
    qed
  qed
  have c: "n \<le> 65536 \<longrightarrow>
            (\<exists>P1. getContinuousRange (UniqueObjectIdPool_new :: 'o UniqueObjectIdPool) n
                    = (Some 0, [], P1) \<and>
                  id_start (ranges P1 ! 0) = 0 \<and>
                  fst (nextId P1 0 obj) = 0 \<and>
                  objectForId (snd (nextId P1 0 obj)) 0 = Some obj)"
    by (simp add: getContinuousRange_new nextId_def objectForId_def)
  from a b c show ?thesis by (intro conjI)
qed

theorem C4_release_clears_lookup_witness:
  "reachable pool_one_assigned ((\<lambda>r. {})(0 := {0})) \<and>
   objectForId pool_one_assigned 0 = Some ''a'' \<and>
   objectForId (recycle pool_one_assigned 0) 0 = None \<and>
   objectForId pool_one_assigned 1 = None"
proof -
  let ?Pa = "snd (snd (getContinuousRange (UniqueObjectIdPool_new :: string UniqueObjectIdPool) 2))"
  have g: "getContinuousRange (UniqueObjectIdPool_new :: string UniqueObjectIdPool) 2
             = (Some 0, [], ?Pa)"
    by (simp add: getContinuousRange_new)
  have ra: "reachable ?Pa (\<lambda>r. {})"
    by (rule reachable.acquire [OF reachable.fresh g])
  have la: "0 < length (ranges ?Pa)"
    by (simp add: getContinuousRange_new)
  have n: "nextId ?Pa 0 ''a'' = (0, pool_one_assigned)"
    by (simp add: pool_one_assigned_def getContinuousRange_new nextId_def)
  have "reachable pool_one_assigned ((\<lambda>r. {})(0 := insert 0 ((\<lambda>r. {}) 0)))"
    by (rule reachable.assign [OF ra la n])
  then have rb: "reachable pool_one_assigned ((\<lambda>r. {})(0 := {0}))"
    by simp
  have lb: "0 < length (ranges pool_one_assigned)"
    by (simp add: pool_one_assigned_def getContinuousRange_new nextId_def)
  have before: "objectForId pool_one_assigned 0 = Some ''a''"
    by (simp add: pool_one_assigned_def getContinuousRange_new nextId_def objectForId_def)
  note h = C4_release_clears_lookup [OF rb, of 0 1]
  from h lb have after: "objectForId (recycle pool_one_assigned 0) 0 = None"
    by simp
  from h have never: "objectForId pool_one_assigned 1 = None"
    by simp
  from rb before after never show ?thesis by (intro conjI)
qed

subsection \<open>Geometry container: drawing\<close>

lemma symDraws_append: "symDraws (xs @ ys) = symDraws xs @ symDraws ys"
  by (induction xs rule: symDraws.induct) simp_all

lemma plainDraws_append: "plainDraws (xs @ ys) = plainDraws xs @ plainDraws ys"
  by (induction xs rule: plainDraws.induct) simp_all

lemma symDraws_sym: "symDraws (map (\<lambda>va. VaDrawSymmetryRelated va sh ts) vas) = map (\<lambda>va. (va, ts)) vas"
  by (induction vas) simp_all

lemma plainDraws_sym: "plainDraws (map (\<lambda>va. VaDrawSymmetryRelated va sh ts) vas) = []"
  by (induction vas) simp_all

lemma symDraws_plain:
  "symDraws (concat (map (\<lambda>va. [VaBind va sh, VaDraw va, VaReleaseAttribs va sh]) vas)) = []"
  by (induction vas) simp_all

lemma plainDraws_plain:
  "plainDraws (concat (map (\<lambda>va. [VaBind va sh, VaDraw va, VaReleaseAttribs va sh]) vas)) = vas"
  by (induction vas) simp_all

lemma drawVertArrays_sym:
  "symDraws (drawVertArrays g cam sh vas (Some ts)) = map (\<lambda>va. (va, ts)) vas"
  "plainDraws (drawVertArrays g cam sh vas (Some ts)) = []"
  by (simp_all add: drawVertArrays_def symDraws_sym plainDraws_sym split: GeomClass.split)

lemma drawVertArrays_plain:
  "symDraws (drawVertArrays g cam sh vas None) = []"
  "plainDraws (drawVertArrays g cam sh vas None) = vas"
  by (simp_all add: drawVertArrays_def symDraws_plain plainDraws_plain split: GeomClass.split)

lemma objectSet_eq: "objectSet chs = set chs - {''__proto__''}"
proof -
  have "foldl (\<lambda>s c. if c = ''__proto__'' then s else insert c s) S chs
        = S \<union> (set chs - {''__proto__''})" for S
    by (induction chs arbitrary: S) auto
  then show ?thesis by (simp add: objectSet_def)
qed

lemma vertArraysInvolving_plain:
  assumes "\<forall>va\<in>set (vertArrays g). chain va \<noteq> ''__proto__''"
  shows "vertArraysInvolving chain g chs = filter (\<lambda>va. chain va \<in> set chs) (vertArrays g)"
  unfolding vertArraysInvolving_def objectSet_eq
  using assms by (intro filter_cong) auto

lemma drawSymmetryRelated_calls:
  "symDraws (drawSymmetryRelated chain g cam sh asm) =
     concat (map (\<lambda>gen. map (\<lambda>va. (va, matrices gen)) (vertArraysInvolving chain g (chains gen)))
       (generators asm))"
  "plainDraws (drawSymmetryRelated chain g cam sh asm) = []"
proof -
  have a: "symDraws (concat (map (\<lambda>gen.
        (let affectedVertArrays = vertArraysInvolving chain g (chains gen)
         in drawVertArrays g cam sh affectedVertArrays (Some (matrices gen)))) gens)) =
     concat (map (\<lambda>gen. map (\<lambda>va. (va, matrices gen)) (vertArraysInvolving chain g (chains gen))) gens)"
    for gens
    by (induction gens) (simp_all add: symDraws_append drawVertArrays_sym)
  have b: "plainDraws (concat (map (\<lambda>gen.
        (let affectedVertArrays = vertArraysInvolving chain g (chains gen)
         in drawVertArrays g cam sh affectedVertArrays (Some (matrices gen)))) gens)) = []"
    for gens
    by (induction gens) (simp_all add: plainDraws_append drawVertArrays_sym)
  show "symDraws (drawSymmetryRelated chain g cam sh asm) =
     concat (map (\<lambda>gen. map (\<lambda>va. (va, matrices gen)) (vertArraysInvolving chain g (chains gen)))
       (generators asm))"
    unfolding drawSymmetryRelated_def by (rule a)
  show "plainDraws (drawSymmetryRelated chain g cam sh asm) = []"
    unfolding drawSymmetryRelated_def by (rule b)
qed

lemma length_drawPairs:
  "length (drawPairs cs) = (\<Sum>p\<leftarrow>symDraws cs. length (snd p))"
proof -
  have "length (concat (map (\<lambda>(va, ts). map (Pair va) ts) ps)) = (\<Sum>p\<leftarrow>ps. length (snd p))"
    for ps :: "('a \<times> 'b list) list"
    by (induction ps) (simp_all add: split_beta)
  then show ?thesis by (simp add: drawPairs_def)
qed

lemma sum_pairs_gens:
  "(\<Sum>p\<leftarrow>concat (map (\<lambda>gen. map (\<lambda>va. (va, matrices gen)) (sel gen)) gens). length (snd p))
   = (\<Sum>gen\<leftarrow>gens. length (sel gen) * length (matrices gen))"
  by (induction gens) (simp_all add: comp_def sum_list_triv)

lemma ex_geom_structure: "structure (ex_geom rel vis cls) = Inr ex_structure"
  by (simp add: structure_def ex_geom_def)

lemma ex_assembly_lookup:
  "assembly ex_structure ''1'' = Some ex_assembly"
  "assembly ex_structure ''2'' = Some ex_assembly_AB"
  "assembly ex_structure ''nope'' = None"
  "assembly ex_structure ''3'' = Some ex_assembly_proto"
  by (simp_all add: ex_structure_def)

text \<open>
  Claim C5, as stated, fails in two ways. A visible line container whose \<open>showRelated\<close>
  resolves to an assembly draws nothing in the outline pass, for which
  \<open>shaderForStyleAndPass\<close> of LineGeom returns no shader, although a generator of the
  assembly lists the chain of one of its vertex arrays. And a visible mesh container with a
  resolved shader draws nothing of a vertex array whose chain is named \<open>__proto__\<close>,
  although the generator lists that name.
\<close>

theorem C5_symmetry_draw_counterexample:
  "visible (ex_geom ''1'' True LineGeom) \<and>
   structure (ex_geom ''1'' True LineGeom) = Inr ex_structure \<and>
   assembly ex_structure (showRelated (ex_geom ''1'' True LineGeom)) = Some ex_assembly \<and>
   filter (\<lambda>va. fst va \<in> set (chains (hd (generators ex_assembly))))
     (vertArrays (ex_geom ''1'' True LineGeom)) = [(''A'', [1])] \<and>
   matrices (hd (generators ex_assembly)) = [10, 20] \<and>
   draw fst (ex_geom ''1'' True LineGeom) ex_cam ex_catalog ''hemilight'' ''outline''
     = Inr ([], []) \<and>
   visible ex_geom_proto \<and>
   structure ex_geom_proto = Inr ex_structure \<and>
   assembly ex_structure (showRelated ex_geom_proto) = Some ex_assembly_proto \<and>
   filter (\<lambda>va. fst va \<in> set (chains (hd (generators ex_assembly_proto))))
     (vertArrays ex_geom_proto) = [(''__proto__'', [1])] \<and>
   matrices (hd (generators ex_assembly_proto)) = [5] \<and>
   shaderForStyleAndPass (geomClass ex_geom_proto) ex_catalog ''hemilight'' ''normal''
     = Some ''hemilightShader'' \<and>
   draw fst ex_geom_proto ex_cam ex_catalog ''hemilight'' ''normal'' = Inr ([], [])"
proof -
  let ?g = "ex_geom ''1'' True LineGeom"
  have a: "visible ?g" and b: "assembly ex_structure (showRelated ?g) = Some ex_assembly"
    and c: "filter (\<lambda>va. fst va \<in> set (chains (hd (generators ex_assembly)))) (vertArrays ?g)
            = [(''A'', [1])]"
    and d: "matrices (hd (generators ex_assembly)) = [10, 20]"
    by (simp_all add: ex_geom_def ex_assembly_lookup ex_assembly_def)
  have e: "draw fst ?g ex_cam ex_catalog ''hemilight'' ''outline'' = Inr ([], [])"
    by (simp add: draw_def shaderForStyleAndPass_def ex_geom_def)
  have a': "visible ex_geom_proto" and s': "structure ex_geom_proto = Inr ex_structure"
    and b': "assembly ex_structure (showRelated ex_geom_proto) = Some ex_assembly_proto"
    and c': "filter (\<lambda>va. fst va \<in> set (chains (hd (generators ex_assembly_proto))))
              (vertArrays ex_geom_proto) = [(''__proto__'', [1])]"
    and d': "matrices (hd (generators ex_assembly_proto)) = [5]"
    and rel': "showRelated ex_geom_proto \<noteq> ''asym''"
    by (simp_all add: ex_geom_proto_def structure_def ex_assembly_lookup ex_assembly_proto_def)
  have sh': "shaderForStyleAndPass (geomClass ex_geom_proto) ex_catalog ''hemilight'' ''normal''
             = Some ''hemilightShader''"
    by (simp add: shaderForStyleAndPass_def ex_geom_proto_def ex_catalog_def)
  have e0: "draw fst ex_geom_proto ex_cam ex_catalog ''hemilight'' ''normal''
            = Inr ([], drawSymmetryRelated fst ex_geom_proto ex_cam ''hemilightShader''
                         ex_assembly_proto)"
    using a' rel' s' b' sh' by (simp add: draw_def)
  have e1: "drawSymmetryRelated fst ex_geom_proto ex_cam ''hemilightShader'' ex_assembly_proto
            = []"
    by (simp add: drawSymmetryRelated_def ex_geom_proto_def ex_assembly_proto_def
          vertArraysInvolving_def objectSet_def drawVertArrays_def)
  have e': "draw fst ex_geom_proto ex_cam ex_catalog ''hemilight'' ''normal'' = Inr ([], [])"
    unfolding e0 e1 ..
  from a ex_geom_structure b c d e a' s' b' c' d' sh' e' show ?thesis by (intro conjI)
qed

text \<open>
  Claim C5, amended. For a visible container none of whose vertex arrays has a chain named
  \<open>__proto__\<close> and whose \<open>showRelated\<close>, other than \<open>'asym'\<close>, resolves to an assembly:
  when \<open>shaderForStyleAndPass\<close> returns no shader, \<open>draw\<close> issues nothing; when it returns one
  is, \<open>draw\<close> issues, generator after generator, one \<open>drawSymmetryRelated\<close> call with the
  whole transform list of the generator for each vertex array whose chain is in the chain
  list of the generator, and no plain draw call. The number of pairs of a vertex array and
  a transform covered is the sum over the generators of the number of chain-matching
  vertex arrays times the number of transforms, and a vertex array whose chain no
  generator lists is in none of the calls.
\<close>

theorem C5_symmetry_draw:
  fixes g :: "('va, 'a, 'm) BaseGeom" and shaderCatalog :: "string \<rightharpoonup> 'sh"
  assumes vis: "visible g" and rel: "showRelated g \<noteq> ''asym''"
    and st: "structure g = Inr st" and asm: "assembly st (showRelated g) = Some asm"
    and tags: "\<forall>va\<in>set (vertArrays g). chain va \<noteq> ''__proto__''"
  shows "(shaderForStyleAndPass (geomClass g) shaderCatalog style pass = None \<longrightarrow>
            draw chain g cam shaderCatalog style pass = Inr ([], [])) \<and>
         (shaderForStyleAndPass (geomClass g) shaderCatalog style pass \<noteq> None \<longrightarrow>
            (\<exists>calls. draw chain g cam shaderCatalog style pass = Inr ([], calls) \<and>
               symDraws calls =
                 concat (map (\<lambda>gen. map (\<lambda>va. (va, matrices gen))
                                  (filter (\<lambda>va. chain va \<in> set (chains gen)) (vertArrays g)))
                           (generators asm)) \<and>
               plainDraws calls = [] \<and>
               length (drawPairs calls) =
                 (\<Sum>gen\<leftarrow>generators asm.
                    length (filter (\<lambda>va. chain va \<in> set (chains gen)) (vertArrays g))
                      * length (matrices gen)) \<and>
               (\<forall>va. (\<forall>gen\<in>set (generators asm). chain va \<notin> set (chains gen)) \<longrightarrow>
                     va \<notin> fst ` set (symDraws calls))))"
proof (intro conjI impI)
  assume "shaderForStyleAndPass (geomClass g) shaderCatalog style pass = None"
  then show "draw chain g cam shaderCatalog style pass = Inr ([], [])"
    by (simp add: draw_def)
next
  assume "shaderForStyleAndPass (geomClass g) shaderCatalog style pass \<noteq> None"
  then obtain shader where
    sh: "shaderForStyleAndPass (geomClass g) shaderCatalog style pass = Some shader"
    by blast
  let ?calls = "drawSymmetryRelated chain g cam shader asm"
  let ?sel = "\<lambda>gen. filter (\<lambda>va. chain va \<in> set (chains gen)) (vertArrays g)"
  have d: "draw chain g cam shaderCatalog style pass = Inr ([], ?calls)"
    using vis rel st asm sh by (simp add: draw_def)
  have s: "symDraws ?calls = concat (map (\<lambda>gen. map (\<lambda>va. (va, matrices gen)) (?sel gen))
      (generators asm))"
    using drawSymmetryRelated_calls(1) [of chain g cam shader asm]
    by (simp add: vertArraysInvolving_plain [OF tags])
  have p: "plainDraws ?calls = []"
    by (rule drawSymmetryRelated_calls(2))
  have n: "length (drawPairs ?calls) =
      (\<Sum>gen\<leftarrow>generators asm. length (?sel gen) * length (matrices gen))"
    unfolding length_drawPairs s by (rule sum_pairs_gens)
  have u: "\<forall>va. (\<forall>gen\<in>set (generators asm). chain va \<notin> set (chains gen)) \<longrightarrow>
      va \<notin> fst ` set (symDraws ?calls)"
    unfolding s by auto
  from d s p n u
  show "\<exists>calls. draw chain g cam shaderCatalog style pass = Inr ([], calls) \<and>
      symDraws calls = concat (map (\<lambda>gen. map (\<lambda>va. (va, matrices gen)) (?sel gen))
        (generators asm)) \<and>
      plainDraws calls = [] \<and>
      length (drawPairs calls) =
        (\<Sum>gen\<leftarrow>generators asm. length (?sel gen) * length (matrices gen)) \<and>
      (\<forall>va. (\<forall>gen\<in>set (generators asm). chain va \<notin> set (chains gen)) \<longrightarrow>
            va \<notin> fst ` set (symDraws calls))"
    by blast
qed

theorem C5_symmetry_draw_witness:
  "draw fst (ex_geom ''2'' True MeshGeom) ex_cam ex_catalog ''hemilight'' ''normal''
     = Inr ([], [VaDrawSymmetryRelated (''A'', [1]) ''hemilightShader'' [1, 2, 3],
                 VaDrawSymmetryRelated (''B'', [2]) ''hemilightShader'' [0]]) \<and>
   length (drawPairs [VaDrawSymmetryRelated (''A'', [1 :: int]) ''hemilightShader'' [1, 2, 3],
                      VaDrawSymmetryRelated (''B'', [2 :: int]) ''hemilightShader'' [0 :: int]])
     = 4 \<and>
   (''C'', [3 :: int]) \<notin> fst ` set (symDraws
       [VaDrawSymmetryRelated (''A'', [1 :: int]) ''hemilightShader'' [1, 2, 3],
        VaDrawSymmetryRelated (''B'', [2 :: int]) ''hemilightShader'' [0 :: int]])"
proof -
  let ?g = "ex_geom ''2'' True MeshGeom"
  let ?calls = "[VaDrawSymmetryRelated (''A'', [1 :: int]) ''hemilightShader'' [1, 2, 3],
                 VaDrawSymmetryRelated (''B'', [2 :: int]) ''hemilightShader'' [0 :: int]]"
  have vis: "visible ?g" and rel: "showRelated ?g \<noteq> ''asym''"
    and asm: "assembly ex_structure (showRelated ?g) = Some ex_assembly_AB"
    and tags: "\<forall>va\<in>set (vertArrays ?g). fst va \<noteq> ''__proto__''"
    by (simp_all add: ex_geom_def ex_assembly_lookup)
  have sh: "shaderForStyleAndPass (geomClass ?g) ex_catalog ''hemilight'' ''normal'' \<noteq> None"
    by (simp add: shaderForStyleAndPass_def ex_geom_def ex_catalog_def)
  have sh': "shaderForStyleAndPass (geomClass ?g) ex_catalog ''hemilight'' ''normal''
             = Some ''hemilightShader''"
    by (simp add: shaderForStyleAndPass_def ex_geom_def ex_catalog_def)
  have d0: "draw fst ?g ex_cam ex_catalog ''hemilight'' ''normal''
            = Inr ([], drawSymmetryRelated fst ?g ex_cam ''hemilightShader'' ex_assembly_AB)"
    using vis rel asm sh' by (simp add: draw_def ex_geom_structure)
  have d1: "drawSymmetryRelated fst ?g ex_cam ''hemilightShader'' ex_assembly_AB = ?calls"
    by (simp add: drawSymmetryRelated_def ex_geom_def ex_assembly_AB_def
          vertArraysInvolving_def objectSet_def drawVertArrays_def)
  have d: "draw fst ?g ex_cam ex_catalog ''hemilight'' ''normal'' = Inr ([], ?calls)"
    unfolding d0 d1 ..
  from C5_symmetry_draw [OF vis rel ex_geom_structure asm tags,
      of ex_catalog "''hemilight''" "''normal''" ex_cam] sh d
  have n: "length (drawPairs ?calls) =
      (\<Sum>gen\<leftarrow>generators ex_assembly_AB.
        length (filter (\<lambda>va. fst va \<in> set (chains gen)) (vertArrays ?g)) * length (matrices gen))"
    and u: "(\<forall>gen\<in>set (generators ex_assembly_AB). fst (''C'', [3 :: int]) \<notin> set (chains gen))
       \<longrightarrow> (''C'', [3]) \<notin> fst ` set (symDraws ?calls)"
    by auto
  from n have n4: "length (drawPairs ?calls) = 4"
    by (simp add: ex_assembly_AB_def ex_geom_def)
  from u have c: "(''C'', [3]) \<notin> fst ` set (symDraws ?calls)"
    by (simp add: ex_assembly_AB_def)
  from d n4 c show ?thesis by (intro conjI)
qed

subsection \<open>Geometry container: the fallback to the asymmetric unit\<close>

text \<open>
  Claim C7, as stated, fails: with a \<open>showRelated\<close> name that the structure does not have,
  \<open>eachCentralAtom\<close> iterates the asymmetric unit but reports nothing, and \<open>draw\<close> on a
  hidden container reports nothing either.
\<close>

theorem C7_dangling_fallback_counterexample:
  "structure (ex_geom ''nope'' True MeshGeom) = Inr ex_structure \<and>
   assembly ex_structure (showRelated (ex_geom ''nope'' True MeshGeom)) = None \<and>
   eachCentralAtom ex_pos ex_transformMat4 (ex_geom ''nope'' True MeshGeom)
     = Inr ([], [(''CA'', 7)]) \<and>
   draw fst (ex_geom ''nope'' False MeshGeom) ex_cam ex_catalog ''hemilight'' ''normal''
     = Inr ([], [])"
  by (simp add: ex_geom_structure ex_assembly_lookup eachCentralAtom_def draw_def)
     (simp add: ex_geom_def ex_structure_def eachCentralAtomAsym_def ex_pos_def)

text \<open>
  Claim C7, amended. For a container with a structure whose \<open>showRelated\<close> is not
  \<open>'asym'\<close> and names an assembly the structure does not have, none of the four operations
  fails. \<open>draw\<close>, \<open>updateProjectionIntervals\<close> and \<open>updateSquaredSphereRadius\<close> do what they
  do with \<open>showRelated = 'asym'\<close>: \<open>draw\<close> draws every vertex array once with no additional
  transform, the two others accumulate over every vertex array with no transform. They
  report the condition with one \<open>console.error\<close> call when the container is visible (and,
  for \<open>draw\<close>, a shader is resolved), and report nothing when they return before the lookup.
  \<open>eachCentralAtom\<close> iterates the central atoms of the asymmetric unit directly and reports
  nothing.
\<close>

theorem C7_dangling_fallback:
  fixes g :: "('va, 'a, 'm) BaseGeom" and shaderCatalog :: "string \<rightharpoonup> 'sh"
  assumes st: "structure g = Inr st" and rel: "showRelated g \<noteq> ''asym''"
    and none: "assembly st (showRelated g) = None"
  shows "(\<exists>calls.
            draw chain (g\<lparr>showRelated := ''asym''\<rparr>) cam shaderCatalog style pass = Inr ([], calls) \<and>
            draw chain g cam shaderCatalog style pass =
              Inr (if visible g \<and> shaderForStyleAndPass (geomClass g) shaderCatalog style pass \<noteq> None
                   then [noAssembly (showRelated g)] else [], calls) \<and>
            symDraws calls = [] \<and>
            plainDraws calls =
              (if visible g \<and> shaderForStyleAndPass (geomClass g) shaderCatalog style pass \<noteq> None
               then vertArrays g else [])) \<and>
         (\<exists>iv.
            updateProjectionIntervals vaProject chain (g\<lparr>showRelated := ''asym''\<rparr>) axes intervals
              = Inr ([], iv) \<and>
            updateProjectionIntervals vaProject chain g axes intervals
              = Inr (if visible g then [noAssembly (showRelated g)] else [], iv) \<and>
            iv = (if visible g
                  then foldl (\<lambda>iv va. vaProject va axes iv None) intervals (vertArrays g)
                  else intervals)) \<and>
         (\<exists>rad.
            updateSquaredSphereRadius vaRadius chain (g\<lparr>showRelated := ''asym''\<rparr>) center radius
              = Inr ([], rad) \<and>
            updateSquaredSphereRadius vaRadius chain g center radius
              = Inr (if visible g then [noAssembly (showRelated g)] else [], rad) \<and>
            rad = (if visible g
                   then foldl (\<lambda>radius va. vaRadius va center radius None) radius (vertArrays g)
                   else radius)) \<and>
         eachCentralAtom pos transformMat4 g = Inr ([], eachCentralAtomAsym pos st)"
proof (intro conjI)
  show "\<exists>calls.
            draw chain (g\<lparr>showRelated := ''asym''\<rparr>) cam shaderCatalog style pass = Inr ([], calls) \<and>
            draw chain g cam shaderCatalog style pass =
              Inr (if visible g \<and> shaderForStyleAndPass (geomClass g) shaderCatalog style pass \<noteq> None
                   then [noAssembly (showRelated g)] else [], calls) \<and>
            symDraws calls = [] \<and>
            plainDraws calls =
              (if visible g \<and> shaderForStyleAndPass (geomClass g) shaderCatalog style pass \<noteq> None
               then vertArrays g else [])"
  proof (cases "visible g \<and> shaderForStyleAndPass (geomClass g) shaderCatalog style pass \<noteq> None")
    case True
    then obtain shader where
      sh: "shaderForStyleAndPass (geomClass g) shaderCatalog style pass = Some shader"
      and vis: "visible g"
      by blast
    have eq: "drawVertArrays (g\<lparr>showRelated := ''asym''\<rparr>) cam shader (vertArrays g) None
              = drawVertArrays g cam shader (vertArrays g) None"
      by (simp add: drawVertArrays_def split: GeomClass.split)
    have a: "draw chain (g\<lparr>showRelated := ''asym''\<rparr>) cam shaderCatalog style pass
          = Inr ([], drawVertArrays g cam shader (vertArrays g) None)"
      using vis sh by (simp add: draw_def eq)
    have b: "draw chain g cam shaderCatalog style pass
          = Inr ([noAssembly (showRelated g)], drawVertArrays g cam shader (vertArrays g) None)"
      using vis sh st rel none by (simp add: draw_def)
    from a b True drawVertArrays_plain [of g cam shader "vertArrays g"]
    show ?thesis by simp
  next
    case False
    then have a: "draw chain (g\<lparr>showRelated := ''asym''\<rparr>) cam shaderCatalog style pass = Inr ([], [])"
      and b: "draw chain g cam shaderCatalog style pass = Inr ([], [])"
      by (auto simp: draw_def)
    from a b False show ?thesis by auto
  qed
next
  show "\<exists>iv.
            updateProjectionIntervals vaProject chain (g\<lparr>showRelated := ''asym''\<rparr>) axes intervals
              = Inr ([], iv) \<and>
            updateProjectionIntervals vaProject chain g axes intervals
              = Inr (if visible g then [noAssembly (showRelated g)] else [], iv) \<and>
            iv = (if visible g
                  then foldl (\<lambda>iv va. vaProject va axes iv None) intervals (vertArrays g)
                  else intervals)"
    using st rel none
    by (simp add: updateProjectionIntervals_def updateProjectionIntervalsAsym_def)
next
  show "\<exists>rad.
            updateSquaredSphereRadius vaRadius chain (g\<lparr>showRelated := ''asym''\<rparr>) center radius
              = Inr ([], rad) \<and>
            updateSquaredSphereRadius vaRadius chain g center radius
              = Inr (if visible g then [noAssembly (showRelated g)] else [], rad) \<and>
            rad = (if visible g
                   then foldl (\<lambda>radius va. vaRadius va center radius None) radius (vertArrays g)
                   else radius)"
    using st rel none
    by (simp add: updateSquaredSphereRadius_def updateSquaredSphereRadiusAsym_def)
next
  show "eachCentralAtom pos transformMat4 g = Inr ([], eachCentralAtomAsym pos st)"
    using st none by (simp add: eachCentralAtom_def)
qed

theorem C7_dangling_fallback_witness:
  "draw fst (ex_geom ''nope'' True LineGeom) ex_cam ex_catalog ''hemilight'' ''normal''
     = Inr ([noAssembly ''nope''],
            snd (projr (draw fst (ex_geom ''asym'' True LineGeom) ex_cam ex_catalog
                          ''hemilight'' ''normal''))) \<and>
   plainDraws (snd (projr (draw fst (ex_geom ''asym'' True LineGeom) ex_cam ex_catalog
                          ''hemilight'' ''normal'')))
     = [(''A'', [1]), (''B'', [2]), (''C'', [3])] \<and>
   updateSquaredSphereRadius ex_vaRadius fst (ex_geom ''nope'' True LineGeom) 0 0
     = Inr ([noAssembly ''nope''], 9) \<and>
   updateProjectionIntervals ex_vaProject fst (ex_geom ''nope'' True LineGeom) ()
       (Range_new None None)
     = Inr ([noAssembly ''nope''], \<lparr>r_empty = False, r_min = Some (Num 1), r_max = Some (Num 3)\<rparr>) \<and>
   eachCentralAtom ex_pos ex_transformMat4 (ex_geom ''nope'' True LineGeom)
     = Inr ([], eachCentralAtomAsym ex_pos ex_structure)"
proof -
  let ?g = "ex_geom ''nope'' True LineGeom"
  have rel: "showRelated ?g \<noteq> ''asym''" and none: "assembly ex_structure (showRelated ?g) = None"
    and asym: "?g\<lparr>showRelated := ''asym''\<rparr> = ex_geom ''asym'' True LineGeom"
    and vis: "visible ?g"
    and sh: "shaderForStyleAndPass (geomClass ?g) ex_catalog ''hemilight'' ''normal'' \<noteq> None"
    and va: "vertArrays ?g = [(''A'', [1]), (''B'', [2]), (''C'', [3])]"
    and rl: "showRelated ?g = ''nope''"
    by (simp_all add: ex_geom_def ex_assembly_lookup shaderForStyleAndPass_def ex_catalog_def)
  note h = C7_dangling_fallback [OF ex_geom_structure rel none,
      of fst ex_cam ex_catalog "''hemilight''" "''normal''" ex_vaProject "()" "Range_new None None"
         ex_vaRadius 0 0 ex_pos ex_transformMat4, unfolded asym]
  from h vis sh have d:
    "draw fst ?g ex_cam ex_catalog ''hemilight'' ''normal''
       = Inr ([noAssembly ''nope''],
              snd (projr (draw fst (ex_geom ''asym'' True LineGeom) ex_cam ex_catalog
                            ''hemilight'' ''normal'')))"
    and p: "plainDraws (snd (projr (draw fst (ex_geom ''asym'' True LineGeom) ex_cam ex_catalog
                          ''hemilight'' ''normal''))) = [(''A'', [1]), (''B'', [2]), (''C'', [3])]"
    by (auto simp: rl va)
  from h vis have r: "updateSquaredSphereRadius ex_vaRadius fst ?g 0 0
      = Inr ([noAssembly ''nope''],
             foldl (\<lambda>radius va. ex_vaRadius va 0 radius None) 0 (vertArrays ?g))"
    by (auto simp: rl)
  then have r9: "updateSquaredSphereRadius ex_vaRadius fst ?g 0 0 = Inr ([noAssembly ''nope''], 9)"
    by (simp add: va ex_vaRadius_def)
  from h vis have i: "updateProjectionIntervals ex_vaProject fst ?g () (Range_new None None)
      = Inr ([noAssembly ''nope''],
             foldl (\<lambda>iv va. ex_vaProject va () iv None) (Range_new None None) (vertArrays ?g))"
    by (auto simp: rl)
  then have i13: "updateProjectionIntervals ex_vaProject fst ?g () (Range_new None None)
      = Inr ([noAssembly ''nope''], \<lparr>r_empty = False, r_min = Some (Num 1), r_max = Some (Num 3)\<rparr>)"
    by (simp add: va ex_vaProject_def updates_def update_def Range_new_def)
  from h have e: "eachCentralAtom ex_pos ex_transformMat4 ?g
      = Inr ([], eachCentralAtomAsym ex_pos ex_structure)"
    by blast
  from d p r9 i13 e show ?thesis by (intro conjI)
qed

subsection \<open>Geometry container: the bounding sphere\<close>

text \<open>
  The code never passes a transform to the vertex arrays: the result depends on their
  method only through what it returns without a transform.
\<close>

lemma updateSquaredSphereRadius_no_transform:
  "updateSquaredSphereRadius vaRadius chain g center radius =
   updateSquaredSphereRadius (\<lambda>va c r t. vaRadius va c r None) chain g center radius"
  by (simp add: updateSquaredSphereRadius_def updateSquaredSphereRadiusAsym_def
      split: sum.split option.split)

text \<open>
  Claim C1 at a failing input. One vertex array of chain A with a vertex at position 1,
  an assembly whose generator lists chain A with the translations by 10 and by 20, center
  0 and radius 0: the code returns the squared radius 1 of the untransformed vertex, while
  measuring under each transform, as the claim says, gives 441. On the same container
  \<open>updateProjectionIntervals\<close>, which passes the transform, finds the interval from 11 to 21
  of the two symmetry copies.
\<close>

theorem C1_radius_ignores_transforms:
  "updateSquaredSphereRadius ex_vaRadius fst (ex_geom ''1'' True MeshGeom) 0 0 = Inr ([], 1) \<and>
   updateSquaredSphereRadius_claimed ex_vaRadius fst (ex_geom ''1'' True MeshGeom) ex_assembly 0 0
     = 441 \<and>
   updateProjectionIntervals ex_vaProject fst (ex_geom ''1'' True MeshGeom) () (Range_new None None)
     = Inr ([], \<lparr>r_empty = False, r_min = Some (Num 11), r_max = Some (Num 21)\<rparr>)"
proof -
  have a: "updateSquaredSphereRadius ex_vaRadius fst (ex_geom ''1'' True MeshGeom) 0 0
           = Inr ([], 1)"
    by (simp add: updateSquaredSphereRadius_def ex_geom_def ex_structure_def ex_assembly_def
        structure_def vertArraysInvolving_def objectSet_def ex_vaRadius_def)
  have b: "updateSquaredSphereRadius_claimed ex_vaRadius fst (ex_geom ''1'' True MeshGeom)
             ex_assembly 0 0 = 441"
    by (simp add: updateSquaredSphereRadius_claimed_def ex_geom_def ex_assembly_def
        vertArraysInvolving_def objectSet_def ex_vaRadius_def)
  have c: "updateProjectionIntervals ex_vaProject fst (ex_geom ''1'' True MeshGeom) ()
             (Range_new None None)
           = Inr ([], \<lparr>r_empty = False, r_min = Some (Num 11), r_max = Some (Num 21)\<rparr>)"
    by (simp add: updateProjectionIntervals_def ex_geom_def ex_structure_def ex_assembly_def
        structure_def vertArraysInvolving_def objectSet_def ex_vaProject_def updates_def update_def
        Range_new_def)
  from a b c show ?thesis by (intro conjI)
qed

subsection \<open>Vertex-array partitioner\<close>

text \<open>
  Claim C6. In a mesh container with a current (last) vertex array: when that one has at
  least \<open>n\<close> free vertex slots, \<open>vertArrayWithSpaceFor n\<close> returns it and changes nothing;
  otherwise it takes the vertex and index counts of the last vertex array off the
  remaining budget, creates an empty vertex array with the same chain tag, with the vertex
  capacity \<open>min 65536 remainingVerts\<close> and the index capacity \<open>remainingIndices\<close>, appends
  it at the end and returns it. The first vertex array of a chain, made by
  \<open>addChainVertArray\<close>, has the vertex capacity \<open>min 65536\<close> of the declared total.
\<close>

theorem C6_vertArrayWithSpaceFor:
  assumes ne: "indexedVertArrays g \<noteq> []"
  shows "(n \<le> maxVerts (last (indexedVertArrays g)) - numVerts (last (indexedVertArrays g)) \<longrightarrow>
            vertArrayWithSpaceFor g n = Inr (last (indexedVertArrays g), g)) \<and>
         (maxVerts (last (indexedVertArrays g)) - numVerts (last (indexedVertArrays g)) < n \<longrightarrow>
            (\<exists>newVa g'.
               vertArrayWithSpaceFor g n = Inr (newVa, g') \<and>
               remainingVerts g' =
                 Some (jsNumber (remainingVerts g) - numVerts (last (indexedVertArrays g))) \<and>
               remainingIndices g' =
                 Some (jsNumber (remainingIndices g) - numIndices (last (indexedVertArrays g))) \<and>
               chainTag newVa = chainTag (last (indexedVertArrays g)) \<and>
               maxVerts newVa = min 65536 (jsNumber (remainingVerts g')) \<and>
               maxIndices newVa = jsNumber (remainingIndices g') \<and>
               numVerts newVa = 0 \<and> numIndices newVa = 0 \<and>
               indexedVertArrays g' = indexedVertArrays g @ [newVa])) \<and>
         (\<exists>va g1.
            addChainVertArray g0 name declaredVerts declaredIndices = (va, g1) \<and>
            chainTag va = Some name \<and>
            maxVerts va = min 65536 declaredVerts \<and> maxIndices va = declaredIndices \<and>
            numVerts va = 0 \<and> numIndices va = 0 \<and>
            indexedVertArrays g1 = indexedVertArrays g0 @ [va] \<and>
            remainingVerts g1 = Some declaredVerts \<and> remainingIndices g1 = Some declaredIndices)"
proof (intro conjI impI)
  assume "n \<le> maxVerts (last (indexedVertArrays g)) - numVerts (last (indexedVertArrays g))"
  with ne show "vertArrayWithSpaceFor g n = Inr (last (indexedVertArrays g), g)"
    by (simp add: vertArrayWithSpaceFor_def Let_def)
next
  let ?cur = "last (indexedVertArrays g)"
  assume less: "maxVerts ?cur - numVerts ?cur < n"
  show "\<exists>newVa g'.
               vertArrayWithSpaceFor g n = Inr (newVa, g') \<and>
               remainingVerts g' = Some (jsNumber (remainingVerts g) - numVerts ?cur) \<and>
               remainingIndices g' = Some (jsNumber (remainingIndices g) - numIndices ?cur) \<and>
               chainTag newVa = chainTag ?cur \<and>
               maxVerts newVa = min 65536 (jsNumber (remainingVerts g')) \<and>
               maxIndices newVa = jsNumber (remainingIndices g') \<and>
               numVerts newVa = 0 \<and> numIndices newVa = 0 \<and>
               indexedVertArrays g' = indexedVertArrays g @ [newVa]"
    using ne less
    by (cases ?cur)
       (simp_all add: vertArrayWithSpaceFor_def Let_def MeshChainData_new_def
          IndexedVertexArray_new_def boundedVertArraySize_def)
next
  show "\<exists>va g1.
            addChainVertArray g0 name declaredVerts declaredIndices = (va, g1) \<and>
            chainTag va = Some name \<and>
            maxVerts va = min 65536 declaredVerts \<and> maxIndices va = declaredIndices \<and>
            numVerts va = 0 \<and> numIndices va = 0 \<and>
            indexedVertArrays g1 = indexedVertArrays g0 @ [va] \<and>
            remainingVerts g1 = Some declaredVerts \<and> remainingIndices g1 = Some declaredIndices"
    by (simp add: addChainVertArray_def Let_def MeshChainData_new_def boundedVertArraySize_def)
qed

theorem C6_vertArrayWithSpaceFor_witness:
  "vertArrayWithSpaceFor ex_meshGeom 2
     = Inr (MeshChainData ''A'' 65536 65534 300000 196602, ex_meshGeom) \<and>
   vertArrayWithSpaceFor ex_meshGeom 3
     = Inr (MeshChainData ''A'' 34466 0 103398 0,
            \<lparr>indexedVertArrays = [MeshChainData ''A'' 65536 65534 300000 196602,
                                   MeshChainData ''A'' 34466 0 103398 0],
             remainingVerts = Some 34466, remainingIndices = Some 103398\<rparr>) \<and>
   fst (addChainVertArray MeshGeom_new ''A'' 100000 300000)
     = MeshChainData ''A'' 65536 0 300000 0"
proof -
  have ne: "indexedVertArrays ex_meshGeom \<noteq> []"
    by (simp add: ex_meshGeom_def)
  note h = C6_vertArrayWithSpaceFor [OF ne, of _ MeshGeom_new "''A''" 100000 300000]
  have a: "vertArrayWithSpaceFor ex_meshGeom 2
     = Inr (MeshChainData ''A'' 65536 65534 300000 196602, ex_meshGeom)"
    using h [of 2] by (simp add: ex_meshGeom_def)
  have b: "vertArrayWithSpaceFor ex_meshGeom 3
     = Inr (MeshChainData ''A'' 34466 0 103398 0,
            \<lparr>indexedVertArrays = [MeshChainData ''A'' 65536 65534 300000 196602,
                                   MeshChainData ''A'' 34466 0 103398 0],
             remainingVerts = Some 34466, remainingIndices = Some 103398\<rparr>)"
  proof -
    from h [of 3] obtain newVa g' where
      r: "vertArrayWithSpaceFor ex_meshGeom 3 = Inr (newVa, g')"
      and v: "remainingVerts g' = Some 34466" and i: "remainingIndices g' = Some 103398"
      and t: "chainTag newVa = Some ''A''" and mv: "maxVerts newVa = 34466"
      and mi: "maxIndices newVa = 103398" and nv: "numVerts newVa = 0"
      and ni: "numIndices newVa = 0"
      and l: "indexedVertArrays g' = [MeshChainData ''A'' 65536 65534 300000 196602, newVa]"
      by (auto simp: ex_meshGeom_def)
    from t mv mi nv ni have va: "newVa = MeshChainData ''A'' 34466 0 103398 0"
      by (cases newVa) simp_all
    from v i l va have "g' = \<lparr>indexedVertArrays = [MeshChainData ''A'' 65536 65534 300000 196602,
                                   MeshChainData ''A'' 34466 0 103398 0],
             remainingVerts = Some 34466, remainingIndices = Some 103398\<rparr>"
      by (cases g') simp
    with r va show ?thesis by simp
  qed
  have c: "fst (addChainVertArray MeshGeom_new ''A'' 100000 300000)
     = MeshChainData ''A'' 65536 0 300000 0"
  proof -
    from h [of 0] obtain va g1 where
      r: "addChainVertArray MeshGeom_new ''A'' 100000 300000 = (va, g1)"
      and t: "chainTag va = Some ''A''" and mv: "maxVerts va = 65536"
      and mi: "maxIndices va = 300000" and nv: "numVerts va = 0" and ni: "numIndices va = 0"
      by auto
    from t mv mi nv ni have "va = MeshChainData ''A'' 65536 0 300000 0"
      by (cases va) simp_all
    with r show ?thesis by simp
  qed
  from a b c show ?thesis by (intro conjI)
qed

end
